theory Spec2Isabelle
  imports Main "HOL-Library.Word" "HOL-Library.Signed_Division" "HOL-Library.Monad_Syntax"
begin

section \<open>Machine integers, vectors and the grid state\<close>

text \<open>
  The C++ types of the two programs: \<open>unsigned\<close> is a 32-bit word whose arithmetic wraps,
  \<open>uint8_t\<close> an 8-bit word, \<open>int\<close> a 32-bit word read in two's complement by \<open>sint\<close>.
  \<open>std::vector::operator[]\<close> and a raw device pointer do not check their index: an access
  outside the buffer is undefined behaviour, which the model returns as \<open>None\<close>.
\<close>

type_synonym u8 = "8 word"
type_synonym u32 = "32 word"
type_synonym i32 = "32 word"

definition vec_read :: "'a list \<Rightarrow> nat \<Rightarrow> 'a option" where
  "vec_read xs i = (if i < length xs then Some (xs ! i) else None)"

definition vec_write :: "'a list \<Rightarrow> nat \<Rightarrow> 'a \<Rightarrow> 'a list option" where
  "vec_write xs i v = (if i < length xs then Some (xs[i := v]) else None)"

text \<open>The counting loop \<open>for (unsigned i = i0; i < n; i++)\<close> over a state that the body
  may fail to return. No loop of the two programs changes its own bound.\<close>

lemma u32_succ: "(x :: u32) < w \<Longrightarrow> unat (x + 1) = Suc (unat x)"
  by unat_arith

function for_u32 :: "u32 \<Rightarrow> u32 \<Rightarrow> (u32 \<Rightarrow> 'a \<Rightarrow> 'a option) \<Rightarrow> 'a \<Rightarrow> 'a option" where
  "for_u32 i n body a = (if i < n then body i a \<bind> for_u32 (i + 1) n body else Some a)"
  by pat_completeness auto
termination
  by (relation "measure (\<lambda>(i, n, body, a). unat n - unat i)")
     (auto simp: u32_succ word_less_nat_alt)

declare for_u32.simps [simp del]

text \<open>The members of class \<open>Life\<close> that both programs share; the cell type is
  \<open>uint8_t\<close> in gol-openmp.cpp and \<open>int\<close> in gol-cuda.cu.\<close>

record 'c life =
  height :: u32
  width :: u32
  cells :: "'c list"
  nextcells :: "'c list"

section \<open>gol-openmp.cpp\<close>

definition alive :: u8 where "alive = 1"
definition dead :: u8 where "dead = 0"

text \<open>\<open>init_random\<close>: \<open>std::generate\<close> assigns the successive draws of the bound
  \<open>uniform_int_distribution<int>(0,1)\<close> over a default-seeded \<open>mt19937\<close> to the cells in
  order. The standard library is not part of the repository: the sequence of draws is
  the parameter \<open>rnd\<close>, and each \<open>int\<close> draw is converted to the cell type.\<close>

definition init_random :: "(nat \<Rightarrow> i32) \<Rightarrow> 'c::len word list \<Rightarrow> 'c word list" where
  "init_random rnd cs = map (\<lambda>k. ucast (rnd k)) [0..<length cs]"

text \<open>The constructor: \<open>height*width\<close> is an \<open>unsigned\<close> product, \<open>resize\<close> fills with
  zeros, then the board is initialised.\<close>

definition Life :: "(nat \<Rightarrow> i32) \<Rightarrow> u32 \<Rightarrow> u32 \<Rightarrow> u8 life" where
  "Life rnd h w =
     \<lparr>height = h, width = w,
      cells = init_random rnd (replicate (unat (h * w)) 0),
      nextcells = replicate (unat (h * w)) 0\<rparr>"

text \<open>The index of the cell that iteration \<open>(x, y)\<close> of \<open>Life::run\<close> reads its state from
  and writes its result to (line 55).\<close>

definition index_openmp :: "u32 \<Rightarrow> u32 \<Rightarrow> u32 \<Rightarrow> u32" where
  "index_openmp h x y = (y * h) + x"

text \<open>The inlined neighbour count (lines 58 to 65): eight reads of \<open>cells\<close>, each
  promoted to \<open>int\<close>, summed, and the sum converted to \<open>uint8_t\<close>.\<close>

definition count_neighbours :: "u8 list \<Rightarrow> u32 \<Rightarrow> u32 \<Rightarrow> u32 \<Rightarrow> u32 \<Rightarrow> u8 option" where
  "count_neighbours cs w h x y = do {
     tl \<leftarrow> vec_read cs (unat (((x - 1 + w) mod w) + (((y - 1 + h) mod h) * w)));
     t \<leftarrow> vec_read cs (unat ((x) + (((y - 1 + h) mod h) * w)));
     tr \<leftarrow> vec_read cs (unat (((x + 1) mod w) + (((y - 1 + h) mod h) * w)));
     l \<leftarrow> vec_read cs (unat (((x - 1 + w) mod w) + y * w));
     r \<leftarrow> vec_read cs (unat (((x + 1) mod w) + y * w));
     bl \<leftarrow> vec_read cs (unat (((x - 1 + w) mod w) + (((y + 1) mod h) * w)));
     b \<leftarrow> vec_read cs (unat ((x) + (((y + 1) mod h) * w)));
     br \<leftarrow> vec_read cs (unat (((x + 1) mod w) + (((y + 1) mod h) * w)));
     Some (ucast ((ucast tl :: i32) + ucast t + ucast tr + ucast l + ucast r
                  + ucast bl + ucast b + ucast br))
   }"

text \<open>The ruleset (lines 68 to 74) on the count and the cell's own state.\<close>

definition rule_openmp :: "u8 \<Rightarrow> u8 \<Rightarrow> u8" where
  "rule_openmp neighbours c =
     (if neighbours = 2 then c else if neighbours = 3 then alive else dead)"

text \<open>The body of the inner loop. \<open>cells[index]\<close> is read only in the branch that
  maintains the cell.\<close>

definition cell_openmp :: "u8 life \<Rightarrow> u32 \<Rightarrow> u32 \<Rightarrow> u8 life option" where
  "cell_openmp s x y = do {
     let index = index_openmp (height s) x y;
     neighbours \<leftarrow> count_neighbours (cells s) (width s) (height s) x y;
     nc \<leftarrow> (if neighbours = 2 then do {
               c \<leftarrow> vec_read (cells s) (unat index);
               vec_write (nextcells s) (unat index) c }
             else if neighbours = 3 then vec_write (nextcells s) (unat index) alive
             else vec_write (nextcells s) (unat index) dead);
     Some (s\<lparr>nextcells := nc\<rparr>)
   }"

text \<open>\<open>for (unsigned int x = 0; x < width; x++)\<close> under
  \<open>for (unsigned int y = 0; y < height; y++)\<close> with \<open>#pragma omp parallel for\<close>.
  The rows are taken in increasing order, which is the schedule of a single thread. On
  a grid where no two iterations write the same index every schedule gives this result;
  where two iterations write the same index the program has a data race and this is one
  of its executions.\<close>

definition step_openmp :: "u8 life \<Rightarrow> u8 life option" where
  "step_openmp s =
     for_u32 0 (height s) (\<lambda>y. for_u32 0 (width s) (\<lambda>x s'. cell_openmp s' x y)) s"

text \<open>\<open>cells.swap(nextcells)\<close>.\<close>

definition swap_cells :: "('c, 'z) life_scheme \<Rightarrow> ('c, 'z) life_scheme" where
  "swap_cells s = s\<lparr>cells := nextcells s, nextcells := cells s\<rparr>"

text \<open>One generation: the two loops, then the swap.\<close>

definition turn_openmp :: "u8 life \<Rightarrow> u8 life option" where
  "turn_openmp s = step_openmp s \<bind> (\<lambda>s'. Some (swap_cells s'))"

text \<open>\<open>Life::run\<close>: \<open>for (unsigned int t = 0; t < numTurns; t++)\<close>.\<close>

definition run_openmp :: "u8 life \<Rightarrow> u32 \<Rightarrow> u8 life option" where
  "run_openmp s numTurns = for_u32 0 numTurns (\<lambda>t. turn_openmp) s"

section \<open>gol-cuda.cu: the kernel\<close>

text \<open>
  Device memory is the list of the buffers allocated so far; a device pointer is the
  position of its buffer in that list, so two allocations never alias. \<open>p[k]\<close> with an
  \<open>int\<close> index outside the buffer is undefined behaviour (\<open>None\<close>).
\<close>

type_synonym devptr = nat
type_synonym devmem = "i32 list list"

definition dev_read :: "devmem \<Rightarrow> devptr \<Rightarrow> i32 \<Rightarrow> i32 option" where
  "dev_read mem p k =
     (if p < length mem \<and> 0 \<le> sint k then vec_read (mem ! p) (nat (sint k)) else None)"

definition dev_write :: "devmem \<Rightarrow> devptr \<Rightarrow> i32 \<Rightarrow> i32 \<Rightarrow> devmem option" where
  "dev_write mem p k v =
     (if p < length mem \<and> 0 \<le> sint k
      then vec_write (mem ! p) (nat (sint k)) v \<bind> (\<lambda>b. Some (mem[p := b]))
      else None)"

text \<open>\<open>/\<close> and \<open>%\<close> on \<open>int\<close> truncate towards zero. The sum, difference and product of
  two \<open>int\<close>s are those of the words: they wrap where C++ leaves the overflow undefined,
  so the results below that depend on them are stated for grids on which none occurs.
  Division by zero is checked where the kernel divides.\<close>

definition int_div :: "i32 \<Rightarrow> i32 \<Rightarrow> i32" where
  "int_div a b = word_of_int (sint a sdiv sint b)"

definition int_mod :: "i32 \<Rightarrow> i32 \<Rightarrow> i32" where
  "int_mod a b = word_of_int (sint a smod sint b)"

text \<open>The neighbour count of \<open>cudaRun\<close> (lines 51 to 59).\<close>

definition neighbours_cuda :: "devmem \<Rightarrow> devptr \<Rightarrow> i32 \<Rightarrow> i32 \<Rightarrow> i32 \<Rightarrow> i32 \<Rightarrow> i32 option" where
  "neighbours_cuda mem current w h x y = do {
     tl \<leftarrow> dev_read mem current ((int_mod (x - 1 + w) w) + ((int_mod (y - 1 + h) h) * w));
     t \<leftarrow> dev_read mem current ((x) + ((int_mod (y - 1 + h) h) * w));
     tr \<leftarrow> dev_read mem current ((int_mod (x + 1) w) + ((int_mod (y - 1 + h) h) * w));
     l \<leftarrow> dev_read mem current ((int_mod (x - 1 + w) w) + y * w);
     r \<leftarrow> dev_read mem current ((int_mod (x + 1) w) + y * w);
     bl \<leftarrow> dev_read mem current ((int_mod (x - 1 + w) w) + ((int_mod (y + 1) h) * w));
     b \<leftarrow> dev_read mem current ((x) + ((int_mod (y + 1) h) * w));
     br \<leftarrow> dev_read mem current ((int_mod (x + 1) w) + ((int_mod (y + 1) h) * w));
     Some (tl + t + tr + l + r + bl + b + br)
   }"

text \<open>The ruleset of \<open>cudaRun\<close> (lines 62 to 68).\<close>

definition rule_cuda :: "i32 \<Rightarrow> i32 \<Rightarrow> i32" where
  "rule_cuda neighbours c = (if neighbours = 2 then c else if neighbours = 3 then 1 else 0)"

text \<open>The body of the grid-stride loop for cell \<open>i\<close>.\<close>

definition cell_cuda :: "i32 \<Rightarrow> i32 \<Rightarrow> devptr \<Rightarrow> devptr \<Rightarrow> i32 \<Rightarrow> devmem \<Rightarrow> devmem option" where
  "cell_cuda w h current next i mem =
     (if w = 0 \<or> h = 0 then None
      else do {
        let x = int_mod i w;
        let y = int_div i w;
        neighbours \<leftarrow> neighbours_cuda mem current w h x y;
        if neighbours = 2 then do {
          c \<leftarrow> dev_read mem current i;
          dev_write mem next i c }
        else if neighbours = 3 then dev_write mem next i 1
        else dev_write mem next i 0
      })"

text \<open>\<open>for (int i = index; i < n; i += stride)\<close>. With a stride that is not positive,
  or when \<open>i + stride\<close> leaves the range of \<open>int\<close>, the loop never reaches \<open>n\<close> by defined
  steps: there is no result.\<close>

function thread_loop ::
  "i32 \<Rightarrow> i32 \<Rightarrow> i32 \<Rightarrow> devptr \<Rightarrow> devptr \<Rightarrow> i32 \<Rightarrow> i32 \<Rightarrow> devmem \<Rightarrow> devmem option" where
  "thread_loop n w h current next stride i mem =
     (if i <s n
      then cell_cuda w h current next i mem \<bind> (\<lambda>mem'.
             if 0 <s stride \<and> sint i + sint stride < 2 ^ 31
             then thread_loop n w h current next stride (i + stride) mem'
             else None)
      else Some mem)"
  by pat_completeness auto
termination
proof (relation "measure (\<lambda>(n, w, h, current, next, stride, i, mem). nat (sint n - sint i))",
       goal_cases)
  case 1
  show ?case by simp
next
  case (2 n w h current nxt stride i mem mem2)
  then have pos: "0 < sint stride" and small: "sint i + sint stride < 2 ^ 31"
    and lt: "sint i < sint n"
    by (simp_all add: word_sless_alt)
  have "- (2 ^ 31) \<le> sint i" using sint_ge [of i] by simp
  with pos small have "sint (i + stride) = sint i + sint stride"
    by (simp add: sint_word_add signed_take_bit_int_eq_self)
  with pos lt show ?case by simp
qed

declare thread_loop.simps [simp del]

text \<open>One thread of \<open>cudaRun\<close>; \<open>gridDim.x\<close>, \<open>blockDim.x\<close>, \<open>blockIdx.x\<close> and
  \<open>threadIdx.x\<close> are \<open>unsigned\<close>, their expressions are converted to \<open>int\<close>.\<close>

definition cudaRun ::
  "u32 \<Rightarrow> u32 \<Rightarrow> u32 \<Rightarrow> u32 \<Rightarrow> i32 \<Rightarrow> i32 \<Rightarrow> i32 \<Rightarrow> devptr \<Rightarrow> devptr \<Rightarrow> devmem \<Rightarrow> devmem option" where
  "cudaRun gridDim blockDim blockIdx threadIdx n w h current next mem =
     (let index = blockIdx * blockDim + threadIdx;
          stride = blockDim * gridDim
      in thread_loop n w h current next stride index mem)"

text \<open>\<open>cudaRun<<<blocks, threads>>>(...)\<close>: every thread of every block runs the kernel.
  The threads are taken block by block in increasing order; as for the rows of the OpenMP
  loop, this is the result of every schedule when the threads write distinct cells of a
  buffer that none of them reads.\<close>

fun launch_threads :: "(u32 \<times> u32) list \<Rightarrow> (u32 \<Rightarrow> u32 \<Rightarrow> devmem \<Rightarrow> devmem option) \<Rightarrow> devmem \<Rightarrow> devmem option" where
  "launch_threads [] k mem = Some mem"
| "launch_threads ((b, t) # ids) k mem = k b t mem \<bind> launch_threads ids k"

definition thread_ids :: "u32 \<Rightarrow> u32 \<Rightarrow> (u32 \<times> u32) list" where
  "thread_ids blocks threads =
     List.product (map word_of_nat [0..<unat blocks]) (map word_of_nat [0..<unat threads])"

definition launch_cudaRun ::
  "u32 \<Rightarrow> u32 \<Rightarrow> i32 \<Rightarrow> i32 \<Rightarrow> i32 \<Rightarrow> devptr \<Rightarrow> devptr \<Rightarrow> devmem \<Rightarrow> devmem option" where
  "launch_cudaRun blocks threads n w h current next mem =
     launch_threads (thread_ids blocks threads)
       (\<lambda>b t. cudaRun blocks threads b t n w h current next) mem"

section \<open>gol-cuda.cu: the host\<close>

text \<open>How a run can end without a result: an access outside a buffer, the \<open>abort()\<close> of
  \<open>checkError\<close>, or the exception of \<open>std::stoi\<close> that \<open>main\<close> does not catch.\<close>

datatype error = UndefinedBehaviour | Abort | Terminate

definition then_do :: "error + 'a \<Rightarrow> ('a \<Rightarrow> error + 'b) \<Rightarrow> error + 'b" where
  "then_do m f = (case m of Inl e \<Rightarrow> Inl e | Inr v \<Rightarrow> f v)"

function for_u32_err :: "u32 \<Rightarrow> u32 \<Rightarrow> (u32 \<Rightarrow> 'a \<Rightarrow> error + 'a) \<Rightarrow> 'a \<Rightarrow> error + 'a" where
  "for_u32_err i n body a =
     (if i < n then (case body i a of Inl e \<Rightarrow> Inl e | Inr a' \<Rightarrow> for_u32_err (i + 1) n body a')
      else Inr a)"
  by pat_completeness auto
termination
  by (relation "measure (\<lambda>(i, n, body, a). unat n - unat i)")
     (auto simp: u32_succ word_less_nat_alt)

declare for_u32_err.simps [simp del]

text \<open>What the program cannot decide: whether the \<open>k\<close>-th CUDA API call of the process
  returns \<open>cudaSuccess\<close>, and what a freshly allocated device buffer holds.\<close>

record cuda_env =
  api_ok :: "nat \<Rightarrow> bool"
  uninit :: "devptr \<Rightarrow> nat \<Rightarrow> i32"

record life_cuda = "i32 life" +
  cellsDevice :: devptr
  nextcellsDevice :: devptr
  device :: devmem
  calls :: nat

text \<open>\<open>checkError\<close> on the status of the next API call.\<close>

definition checkError :: "cuda_env \<Rightarrow> life_cuda \<Rightarrow> error + life_cuda" where
  "checkError env s =
     (if api_ok env (calls s) then Inr (s\<lparr>calls := Suc (calls s)\<rparr>) else Inl Abort)"

definition cudaMalloc :: "cuda_env \<Rightarrow> nat \<Rightarrow> life_cuda \<Rightarrow> error + (devptr \<times> life_cuda)" where
  "cudaMalloc env bytes s =
     then_do (checkError env s) (\<lambda>s'.
       let p = length (device s')
       in Inr (p, s'\<lparr>device := device s' @ [map (uninit env p) [0..<bytes div 4]]\<rparr>))"

text \<open>\<open>cudaMemcpy\<close> of the whole host vector, in either direction.\<close>

definition copy_to_device :: "cuda_env \<Rightarrow> life_cuda \<Rightarrow> error + life_cuda" where
  "copy_to_device env s =
     then_do (checkError env s) (\<lambda>s'.
       let p = cellsDevice s'
       in if p < length (device s') \<and> length (cells s') \<le> length (device s' ! p)
          then Inr (s'\<lparr>device := (device s')
                        [p := cells s' @ drop (length (cells s')) (device s' ! p)]\<rparr>)
          else Inl UndefinedBehaviour)"

definition copy_to_host :: "cuda_env \<Rightarrow> life_cuda \<Rightarrow> error + life_cuda" where
  "copy_to_host env s =
     then_do (checkError env s) (\<lambda>s'.
       let p = cellsDevice s'
       in if p < length (device s') \<and> length (cells s') \<le> length (device s' ! p)
          then Inr (s'\<lparr>cells := take (length (cells s')) (device s' ! p)\<rparr>)
          else Inl UndefinedBehaviour)"

text \<open>The constructor, on a device with nothing allocated.\<close>

definition Life_cuda :: "cuda_env \<Rightarrow> (nat \<Rightarrow> i32) \<Rightarrow> u32 \<Rightarrow> u32 \<Rightarrow> error + life_cuda" where
  "Life_cuda env rnd h w =
     (let s = \<lparr>height = h, width = w,
               cells = replicate (unat (h * w)) 0, nextcells = replicate (unat (h * w)) 0,
               cellsDevice = 0, nextcellsDevice = 0, device = [], calls = 0\<rparr>
      in then_do (cudaMalloc env (length (cells s) * 4) s) (\<lambda>(p, s).
         let s = s\<lparr>cellsDevice := p\<rparr>
         in then_do (cudaMalloc env (length (cells s) * 4) s) (\<lambda>(p, s).
            let s = s\<lparr>nextcellsDevice := p\<rparr>;
                s = s\<lparr>cells := init_random rnd (cells s)\<rparr>
            in copy_to_device env s)))"

text \<open>One iteration of the loop of \<open>Life::run\<close>: the kernel launch, the
  \<open>cudaDeviceSynchronize\<close>, the swap of the two device pointers, the copy to the host.\<close>

definition turn_cuda :: "cuda_env \<Rightarrow> u32 \<Rightarrow> u32 \<Rightarrow> life_cuda \<Rightarrow> error + life_cuda" where
  "turn_cuda env blocks threads s =
     (case launch_cudaRun blocks threads (word_of_nat (length (cells s))) (width s) (height s)
             (cellsDevice s) (nextcellsDevice s) (device s) of
        None \<Rightarrow> Inl UndefinedBehaviour
      | Some mem \<Rightarrow>
          then_do (checkError env (s\<lparr>device := mem\<rparr>)) (\<lambda>s.
            let temp = cellsDevice s;
                s = s\<lparr>cellsDevice := nextcellsDevice s\<rparr>;
                s = s\<lparr>nextcellsDevice := temp\<rparr>
            in copy_to_host env s))"

definition run_cuda :: "cuda_env \<Rightarrow> life_cuda \<Rightarrow> u32 \<Rightarrow> error + life_cuda" where
  "run_cuda env s numTurns =
     (let threads = 256;
          blocks = word_of_nat ((length (cells s) + 256 - 1) div 256)
      in for_u32_err 0 numTurns (\<lambda>t. turn_cuda env blocks threads) s)"

section \<open>Output and \<open>main\<close>\<close>

text \<open>\<open>operator<<\<close> on an \<open>unsigned\<close> or a \<open>long\<close> writes its decimal digits.\<close>

function show_nat :: "nat \<Rightarrow> string" where
  "show_nat n =
     (if n < 10 then [''0123456789'' ! n]
      else show_nat (n div 10) @ [''0123456789'' ! (n mod 10)])"
  by pat_completeness auto
termination
  by (relation "measure id") auto

declare show_nat.simps [simp del]

definition show_int :: "int \<Rightarrow> string" where
  "show_int k = (if k < 0 then CHR ''-'' # show_nat (nat (- k)) else show_nat (nat k))"

definition endl :: string where
  "endl = [CHR 0x0A]"

text \<open>\<open>output_file\<close>, the same in both programs but for the name of the file: every
  cell is written as \<open>(unsigned)cells[y*width + x]\<close>, every row ends with \<open>std::endl\<close>.\<close>

definition output_file :: "('c::len word, 'z) life_scheme \<Rightarrow> string option" where
  "output_file s =
     for_u32 0 (height s) (\<lambda>y out.
       for_u32 0 (width s) (\<lambda>x out.
         vec_read (cells s) (unat (y * width s + x)) \<bind> (\<lambda>c. Some (out @ show_nat (unat c)))) out
       \<bind> (\<lambda>out. Some (out @ endl))) []"

text \<open>What a process leaves behind when \<open>main\<close> returns.\<close>

record process =
  stdout :: string
  files :: "(string \<times> string) list"
  status :: int

definition usage :: string where
  "usage = ''Usage: ./gol-cuda <height> <width> <turns>'' @ endl"

definition timings :: "int \<Rightarrow> int \<Rightarrow> string" where
  "timings modelTime totalTime =
     ''Model run time: '' @ show_int modelTime @ '' us'' @ endl
     @ ''Total time: '' @ show_int totalTime @ '' us'' @ endl"

text \<open>The three \<open>std::stoi\<close> calls in order; \<open>stoi\<close> is the library function, \<open>None\<close> where
  it throws. Its \<open>int\<close> is assigned to an \<open>unsigned\<close>.\<close>

definition parse_args :: "(string \<Rightarrow> i32 option) \<Rightarrow> string list \<Rightarrow> error + (u32 \<times> u32 \<times> u32)" where
  "parse_args stoi args =
     (case stoi (args ! 1) of None \<Rightarrow> Inl Terminate | Some h \<Rightarrow>
       (case stoi (args ! 2) of None \<Rightarrow> Inl Terminate | Some w \<Rightarrow>
         (case stoi (args ! 3) of None \<Rightarrow> Inl Terminate | Some turns \<Rightarrow>
            Inr (h, w, turns))))"

text \<open>\<open>main\<close> of gol-openmp.cpp. The two measured durations are parameters.\<close>

definition main_openmp ::
  "(string \<Rightarrow> i32 option) \<Rightarrow> (nat \<Rightarrow> i32) \<Rightarrow> int \<Rightarrow> int \<Rightarrow> string list \<Rightarrow> error + process" where
  "main_openmp stoi rnd modelTime totalTime args =
     (if length args = 4
      then then_do (parse_args stoi args) (\<lambda>(h, w, turns).
             let l = Life rnd h w
             in case run_openmp l turns of None \<Rightarrow> Inl UndefinedBehaviour | Some l \<Rightarrow>
                  (case output_file l of None \<Rightarrow> Inl UndefinedBehaviour | Some out \<Rightarrow>
                     Inr \<lparr>stdout = timings modelTime totalTime,
                          files = [(''output-openmp.txt'', out)], status = 0\<rparr>))
      else Inr \<lparr>stdout = usage, files = [], status = 1\<rparr>)"

text \<open>\<open>main\<close> of gol-cuda.cu.\<close>

definition main_cuda ::
  "cuda_env \<Rightarrow> (string \<Rightarrow> i32 option) \<Rightarrow> (nat \<Rightarrow> i32) \<Rightarrow> int \<Rightarrow> int \<Rightarrow> string list \<Rightarrow> error + process" where
  "main_cuda env stoi rnd modelTime totalTime args =
     (if length args = 4
      then then_do (parse_args stoi args) (\<lambda>(h, w, turns).
             then_do (Life_cuda env rnd h w) (\<lambda>l.
             then_do (run_cuda env l turns) (\<lambda>l.
                case output_file l of None \<Rightarrow> Inl UndefinedBehaviour | Some out \<Rightarrow>
                  Inr \<lparr>stdout = timings modelTime totalTime,
                       files = [(''output-cuda.txt'', out)], status = 0\<rparr>)))
      else Inr \<lparr>stdout = usage, files = [], status = 1\<rparr>)"

section \<open>The update as the specification words it\<close>

text \<open>The Neighbor Rule of the specification on a state \<open>s\<close> and a live count \<open>n\<close>:
  unchanged for 2, alive for 3, dead otherwise.\<close>

definition rule_spec :: "nat \<Rightarrow> nat \<Rightarrow> nat" where
  "rule_spec s n = (if n = 2 then s else if n = 3 then 1 else 0)"

text \<open>Toroidal adjacency: the neighbours of \<open>(x, y)\<close> are \<open>((x + dx) mod W, (y + dy) mod H)\<close>
  for the eight non-zero offsets; cell \<open>(x, y)\<close> lives at \<open>y * W + x\<close>.\<close>

definition offsets :: "(int \<times> int) list" where
  "offsets = [(-1, -1), (0, -1), (1, -1), (-1, 0), (1, 0), (-1, 1), (0, 1), (1, 1)]"

definition neighbor_count :: "nat \<Rightarrow> nat \<Rightarrow> nat list \<Rightarrow> nat \<Rightarrow> nat \<Rightarrow> nat" where
  "neighbor_count H W g x y =
     sum_list (map (\<lambda>(dx, dy). g ! (nat ((int y + dy) mod int H) * W + nat ((int x + dx) mod int W)))
                   offsets)"

definition step_spec :: "nat \<Rightarrow> nat \<Rightarrow> nat list \<Rightarrow> nat list" where
  "step_spec H W g =
     map (\<lambda>i. rule_spec (g ! i) (neighbor_count H W g (i mod W) (i div W))) [0..<H * W]"

text \<open>A grid of cell states: every entry is 0 or 1.\<close>

definition bits :: "nat list \<Rightarrow> bool" where
  "bits g \<longleftrightarrow> (\<forall>v \<in> set g. v \<le> 1)"

text \<open>A buffer of words whose first \<open>m\<close> entries already hold the grid \<open>G\<close>.\<close>

definition written :: "nat list \<Rightarrow> nat \<Rightarrow> 'c::len word list \<Rightarrow> bool" where
  "written G m nc \<longleftrightarrow> length nc = length G \<and> (\<forall>k < m. unat (nc ! k) = G ! k)"

section \<open>Predicates on states\<close>

text \<open>The invariant of the host state of the CUDA program between two turns: the two device
  pointers name two different buffers of the size of the grid, and the host vector holds a copy
  of the current device buffer.\<close>

definition cuda_inv :: "life_cuda \<Rightarrow> bool" where
  "cuda_inv s \<longleftrightarrow>
     cellsDevice s < length (device s) \<and> nextcellsDevice s < length (device s) \<and>
     cellsDevice s \<noteq> nextcellsDevice s \<and>
     length (device s ! cellsDevice s) = unat (height s) * unat (width s) \<and>
     length (device s ! nextcellsDevice s) = unat (height s) * unat (width s) \<and>
     cells s = device s ! cellsDevice s"

text \<open>Every cell of a vector is 0 or 1.\<close>

definition all_bits :: "'c::len word list \<Rightarrow> bool" where
  "all_bits cs \<longleftrightarrow> (\<forall>c \<in> set cs. c = 0 \<or> c = 1)"



text \<open>The text of the output file for a grid given as a list of numbers.\<close>

definition output_grid :: "u32 \<Rightarrow> u32 \<Rightarrow> nat list \<Rightarrow> string option" where
  "output_grid h w g =
     for_u32 0 h (\<lambda>y out.
       for_u32 0 w (\<lambda>x out.
         vec_read g (unat (y * w + x)) \<bind> (\<lambda>c. Some (out @ show_nat c))) out
       \<bind> (\<lambda>out. Some (out @ endl))) []"

section \<open>Instances of the parameters\<close>

text \<open>The programs seed \<open>std::mt19937\<close> with its default (5489), so the initial grid is the same
  on every run. \<open>mt_draws k\<close> is the \<open>k\<close>-th draw of
  \<open>uniform_int_distribution<int>(0,1)\<close> as libstdc++ computes it for that engine, for
  \<open>k < 25\<close>, and 0 beyond.\<close>

definition mt_draws :: "nat \<Rightarrow> i32" where
  "mt_draws k = (if k \<in> {0, 2, 3, 5, 6, 8, 11, 14, 15, 16, 17, 18, 19, 21, 22, 23, 24} then 1 else 0)"

text \<open>A device on which every call succeeds and fresh memory holds 7, and a machine on which
  every call fails.\<close>

definition all_ok :: cuda_env where
  "all_ok = \<lparr>api_ok = (\<lambda>k. True), uninit = (\<lambda>p k. 7)\<rparr>"

definition no_device :: cuda_env where
  "no_device = \<lparr>api_ok = (\<lambda>k. False), uninit = (\<lambda>p k. 0)\<rparr>"

text \<open>An instance of the parameter \<open>stoi\<close> for the examples: a string of decimal digits
  that fits an \<open>int\<close> is its value; on every other string this instance has no result.\<close>

definition digit_val :: "char \<Rightarrow> nat option" where
  "digit_val c = map_of (zip ''0123456789'' [0, 1, 2, 3, 4, 5, 6, 7, 8, 9]) c"

fun digits_val :: "nat \<Rightarrow> string \<Rightarrow> nat option" where
  "digits_val acc [] = Some acc"
| "digits_val acc (c # cs) =
     (case digit_val c of None \<Rightarrow> None | Some d \<Rightarrow> digits_val (10 * acc + d) cs)"

definition stoi_dec :: "string \<Rightarrow> i32 option" where
  "stoi_dec s =
     (if s = [] then None
      else case digits_val 0 s of
             None \<Rightarrow> None
           | Some v \<Rightarrow> if v < 2 ^ 31 then Some (word_of_nat v) else None)"

section \<open>Rules for the loops\<close>

lemma for_u32_unfold:
  "i < n \<Longrightarrow> for_u32 i n body a =
     (case body i a of None \<Rightarrow> None | Some a' \<Rightarrow> for_u32 (i + 1) n body a')"
  "\<not> i < n \<Longrightarrow> for_u32 i n body a = Some a"
  by (subst for_u32.simps; simp split: option.splits)+

lemma for_u32_err_unfold:
  "i < n \<Longrightarrow> for_u32_err i n body a =
     (case body i a of Inl e \<Rightarrow> Inl e | Inr a' \<Rightarrow> for_u32_err (i + 1) n body a')"
  "\<not> i < n \<Longrightarrow> for_u32_err i n body a = Inr a"
  by (subst for_u32_err.simps; simp)+

lemma u32_succ_le: "(i :: u32) < n \<Longrightarrow> i + 1 \<le> n"
  by unat_arith

lemma u32_le_succ: "(i :: u32) < n \<Longrightarrow> i \<le> i + 1"
  by unat_arith

text \<open>An invariant that every iteration keeps holds of the result, when there is one.\<close>

lemma for_u32_rule:
  assumes "for_u32 i n body a = Some r" and "i \<le> n" and "P i a"
    and "\<And>j b b'. i \<le> j \<Longrightarrow> j < n \<Longrightarrow> P j b \<Longrightarrow> body j b = Some b' \<Longrightarrow> P (j + 1) b'"
  shows "P n r"
  using assms
proof (induction i n body a rule: for_u32.induct)
  case (1 i n body a)
  show ?case
  proof (cases "i < n")
    case True
    from "1.prems"(1) True obtain a' where b: "body i a = Some a'"
      and r: "for_u32 (i + 1) n body a' = Some r"
      by (auto simp: for_u32_unfold split: option.splits)
    have le: "i + 1 \<le> n" using True by (rule u32_succ_le)
    have ile: "i \<le> i + 1" using True by (rule u32_le_succ)
    have P': "P (i + 1) a'" using "1.prems"(4) [OF order_refl True "1.prems"(3) b] .
    show ?thesis
    proof (rule "1.IH" [OF True b r le P'])
      fix j b b' assume "i + 1 \<le> j" "j < n" "P j b" "body j b = Some b'"
      with ile show "P (j + 1) b'" using "1.prems"(4) [of j b b'] by auto
    qed
  next
    case False
    with "1.prems" have "r = a" "i = n" by (auto simp: for_u32_unfold)
    with "1.prems" show ?thesis by simp
  qed
qed

text \<open>When every iteration returns and keeps the invariant, so does the loop.\<close>

lemma for_u32_total:
  assumes "i \<le> n" and "P i a"
    and "\<And>j b. i \<le> j \<Longrightarrow> j < n \<Longrightarrow> P j b \<Longrightarrow> \<exists>b'. body j b = Some b' \<and> P (j + 1) b'"
  shows "\<exists>r. for_u32 i n body a = Some r \<and> P n r"
  using assms
proof (induction i n body a rule: for_u32.induct)
  case (1 i n body a)
  show ?case
  proof (cases "i < n")
    case True
    from "1.prems"(3) [OF order_refl True "1.prems"(2)]
    obtain a' where b: "body i a = Some a'" and P': "P (i + 1) a'" by blast
    have le: "i + 1 \<le> n" using True by (rule u32_succ_le)
    have ile: "i \<le> i + 1" using True by (rule u32_le_succ)
    have "\<exists>r. for_u32 (i + 1) n body a' = Some r \<and> P n r"
    proof (rule "1.IH" [OF True b le P'])
      fix j b assume "i + 1 \<le> j" "j < n" "P j b"
      with ile show "\<exists>b'. body j b = Some b' \<and> P (j + 1) b'"
        using "1.prems"(3) [of j b] by auto
    qed
    with True b show ?thesis by (simp add: for_u32_unfold)
  next
    case False
    with "1.prems" have "i = n" by auto
    with "1.prems" False show ?thesis by (simp add: for_u32_unfold)
  qed
qed

lemma for_u32_err_rule:
  assumes "for_u32_err i n body a = Inr r" and "i \<le> n" and "P i a"
    and "\<And>j b b'. i \<le> j \<Longrightarrow> j < n \<Longrightarrow> P j b \<Longrightarrow> body j b = Inr b' \<Longrightarrow> P (j + 1) b'"
  shows "P n r"
  using assms
proof (induction i n body a rule: for_u32_err.induct)
  case (1 i n body a)
  show ?case
  proof (cases "i < n")
    case True
    from "1.prems"(1) True obtain a' where b: "body i a = Inr a'"
      and r: "for_u32_err (i + 1) n body a' = Inr r"
      by (auto simp: for_u32_err_unfold split: sum.splits)
    have le: "i + 1 \<le> n" using True by (rule u32_succ_le)
    have ile: "i \<le> i + 1" using True by (rule u32_le_succ)
    have P': "P (i + 1) a'" using "1.prems"(4) [OF order_refl True "1.prems"(3) b] .
    show ?thesis
    proof (rule "1.IH" [OF True b r le P'])
      fix j b b' assume "i + 1 \<le> j" "j < n" "P j b" "body j b = Inr b'"
      with ile show "P (j + 1) b'" using "1.prems"(4) [of j b b'] by auto
    qed
  next
    case False
    with "1.prems" have "r = a" "i = n" by (auto simp: for_u32_err_unfold)
    with "1.prems" show ?thesis by simp
  qed
qed

lemma for_u32_err_total:
  assumes "i \<le> n" and "P i a"
    and "\<And>j b. i \<le> j \<Longrightarrow> j < n \<Longrightarrow> P j b \<Longrightarrow> \<exists>b'. body j b = Inr b' \<and> P (j + 1) b'"
  shows "\<exists>r. for_u32_err i n body a = Inr r \<and> P n r"
  using assms
proof (induction i n body a rule: for_u32_err.induct)
  case (1 i n body a)
  show ?case
  proof (cases "i < n")
    case True
    from "1.prems"(3) [OF order_refl True "1.prems"(2)]
    obtain a' where b: "body i a = Inr a'" and P': "P (i + 1) a'" by blast
    have le: "i + 1 \<le> n" using True by (rule u32_succ_le)
    have ile: "i \<le> i + 1" using True by (rule u32_le_succ)
    have "\<exists>r. for_u32_err (i + 1) n body a' = Inr r \<and> P n r"
    proof (rule "1.IH" [OF True b le P'])
      fix j b assume "i + 1 \<le> j" "j < n" "P j b"
      with ile show "\<exists>b'. body j b = Inr b' \<and> P (j + 1) b'"
        using "1.prems"(3) [of j b] by auto
    qed
    with True b show ?thesis by (simp add: for_u32_err_unfold)
  next
    case False
    with "1.prems" have "i = n" by auto
    with "1.prems" False show ?thesis by (simp add: for_u32_err_unfold)
  qed
qed

section \<open>What one cell update does\<close>

text \<open>The value that the OpenMP loop body writes is \<open>rule_openmp\<close> of the count and of
  the cell at the same index; only \<open>nextcells\<close> changes.\<close>

lemma cell_openmp_Some:
  assumes "cell_openmp s x y = Some s'"
  obtains n where "count_neighbours (cells s) (width s) (height s) x y = Some n"
    and "unat (index_openmp (height s) x y) < length (nextcells s)"
    and "s' = s\<lparr>nextcells := (nextcells s)[unat (index_openmp (height s) x y) :=
                     rule_openmp n (cells s ! unat (index_openmp (height s) x y))]\<rparr>"
    and "n = 2 \<Longrightarrow> unat (index_openmp (height s) x y) < length (cells s)"
  using assms
  by (auto simp: cell_openmp_def rule_openmp_def vec_read_def vec_write_def Let_def
           split: bind_splits if_splits)

text \<open>The same for the body of the kernel's loop and \<open>rule_cuda\<close>; only the buffer
  \<open>next\<close> changes.\<close>

lemma cell_cuda_Some:
  assumes "cell_cuda w h current next i mem = Some mem'"
  obtains n where "neighbours_cuda mem current w h (int_mod i w) (int_div i w) = Some n"
    and "next < length mem" and "0 \<le> sint i" and "nat (sint i) < length (mem ! next)"
    and "mem' = mem[next := (mem ! next)[nat (sint i) :=
                      rule_cuda n (mem ! current ! nat (sint i))]]"
    and "w \<noteq> 0" and "h \<noteq> 0"
  using assms
  by (auto simp: cell_cuda_def rule_cuda_def dev_read_def dev_write_def vec_read_def
                 vec_write_def Let_def
           split: bind_splits if_splits)

section \<open>The rule and the wrap-around\<close>

text \<open>
  C4. For a state \<open>s\<close> in \<open>{0, 1}\<close> and a live count \<open>n\<close> from 0 to 8, the rule of the OpenMP
  loop and the rule of the CUDA kernel both return what the Neighbor Rule of the
  specification returns: \<open>s\<close> for \<open>n = 2\<close>, 1 for \<open>n = 3\<close>, 0 otherwise. The two rules are
  therefore equal on that domain. By \<open>cell_openmp_Some\<close> and \<open>cell_cuda_Some\<close> these are the
  values the two loop bodies write.
\<close>

theorem rule_correct:
  assumes "s \<le> 1" and "n \<le> 8"
  shows "unat (rule_openmp (word_of_nat n) (word_of_nat s)) = rule_spec s n \<and>
         unat (rule_cuda (word_of_nat n) (word_of_nat s)) = rule_spec s n \<and>
         unat (rule_openmp (word_of_nat n) (word_of_nat s))
           = unat (rule_cuda (word_of_nat n) (word_of_nat s))"
proof -
  have s: "s = 0 \<or> s = 1" using assms by auto
  have "n \<in> {0, 1, 2, 3, 4, 5, 6, 7, 8}" using assms(2) by auto
  then show ?thesis using s
    by (auto simp: rule_openmp_def rule_cuda_def rule_spec_def alive_def dead_def)
qed

theorem rule_correct_witness:
  "(1 :: nat) \<le> 1 \<and> (2 :: nat) \<le> 8 \<and>
   unat (rule_openmp (word_of_nat 2) (word_of_nat 1)) = 1 \<and>
   unat (rule_cuda (word_of_nat 2) (word_of_nat 1)) = 1 \<and>
   rule_spec 1 2 = 1"
  using rule_correct [of 1 2] by (simp add: rule_spec_def)

text \<open>
  C7. On the 3-by-3 grid whose only live cell is \<open>(0, 0)\<close>, the neighbour count at
  \<open>(2, 2)\<close> is 1, in the OpenMP count and in the CUDA count.
\<close>

theorem wraparound_corner:
  "count_neighbours [1, 0, 0, 0, 0, 0, 0, 0, 0] 3 3 2 2 = Some 1 \<and>
   neighbours_cuda [[1, 0, 0, 0, 0, 0, 0, 0, 0]] 0 3 3 2 2 = Some 1"
  by (simp add: count_neighbours_def neighbours_cuda_def dev_read_def vec_read_def int_mod_def)

section \<open>Index arithmetic on the torus\<close>

lemma u32_left:
  fixes x w :: u32
  assumes "x < w" and "unat w \<le> 2 ^ 31"
  shows "unat ((x - 1 + w) mod w) = (unat x + unat w - 1) mod unat w"
proof -
  have xw: "unat x < unat w" using assms(1) by (simp add: word_less_nat_alt)
  have e: "x - 1 + w = (x + w) - 1" by simp
  have s: "unat (x + w) = unat x + unat w"
    using xw assms(2) by (simp add: unat_add_lem [THEN iffD1])
  have nz: "x + w \<noteq> 0" using xw s
    by (metis add_is_0 not_less_zero unat_0)
  have "unat ((x + w) - 1) = unat x + unat w - 1"
    using unat_minus_one [OF nz] s by simp
  then show ?thesis by (simp only: e unat_mod)
qed

lemma u32_right:
  fixes x w :: u32
  assumes "x < w"
  shows "unat ((x + 1) mod w) = (unat x + 1) mod unat w"
  using assms by (simp add: unat_mod u32_succ)

lemma u32_mult:
  fixes a w :: u32
  assumes "unat a * unat w < 2 ^ 32"
  shows "unat (a * w) = unat a * unat w"
  using assms by (simp add: unat_mult_lem [THEN iffD1])

lemma u32_add:
  fixes a b :: u32
  assumes "unat a + unat b < 2 ^ 32"
  shows "unat (a + b) = unat a + unat b"
  using assms by (simp add: unat_add_lem [THEN iffD1])

lemma torus_lt:
  fixes a b H W :: nat
  assumes "a < W" and "b < H"
  shows "a + b * W < H * W"
proof -
  have "a + b * W < W + b * W" using assms by simp
  also have "\<dots> = (Suc b) * W" by simp
  also have "\<dots> \<le> H * W" using assms(2) by (intro mult_le_mono1) simp
  finally show ?thesis .
qed

lemma torus_lt2:
  fixes a b H W :: nat
  assumes "a < W" and "b < H"
  shows "b * W + a < H * W"
  using torus_lt [OF assms] by (simp add: add.commute)

lemma u32_index:
  fixes a b w :: u32
  assumes "unat a < unat w" and "unat b < H" and "H * unat w < 2 ^ 32"
  shows "unat (a + b * w) = unat a + unat b * unat w"
    and "unat a + unat b * unat w < H * unat w"
proof -
  show lt: "unat a + unat b * unat w < H * unat w" using assms(1,2) by (rule torus_lt)
  with assms(3) have "unat a + unat b * unat w < 2 ^ 32" by simp
  moreover from this have "unat b * unat w < 2 ^ 32" by simp
  ultimately show "unat (a + b * w) = unat a + unat b * unat w"
    by (simp add: u32_add u32_mult)
qed

lemma u8_sum8:
  fixes c1 c2 c3 c4 c5 c6 c7 c8 :: u8
  assumes "c1 \<le> 1" "c2 \<le> 1" "c3 \<le> 1" "c4 \<le> 1" "c5 \<le> 1" "c6 \<le> 1" "c7 \<le> 1" "c8 \<le> 1"
  shows "unat (ucast ((ucast c1 :: i32) + ucast c2 + ucast c3 + ucast c4 + ucast c5
                  + ucast c6 + ucast c7 + ucast c8) :: u8)
         = unat c1 + unat c2 + unat c3 + unat c4 + unat c5 + unat c6 + unat c7 + unat c8"
proof -
  have b: "unat c1 \<le> 1" "unat c2 \<le> 1" "unat c3 \<le> 1" "unat c4 \<le> 1"
          "unat c5 \<le> 1" "unat c6 \<le> 1" "unat c7 \<le> 1" "unat c8 \<le> 1"
    using assms by (simp_all add: word_le_nat_alt)
  have u: "\<And>c :: u8. unat c \<le> 1 \<Longrightarrow> unat (ucast c :: i32) = unat c"
    by (simp add: unsigned_ucast_eq take_bit_nat_eq_self)
  have "unat ((ucast c1 :: i32) + ucast c2 + ucast c3 + ucast c4 + ucast c5
                  + ucast c6 + ucast c7 + ucast c8)
        = unat c1 + unat c2 + unat c3 + unat c4 + unat c5 + unat c6 + unat c7 + unat c8"
    using b by (simp add: unat_word_ariths u)
  then show ?thesis using b by (simp add: unsigned_ucast_eq take_bit_nat_eq_self)
qed

lemma int_left: "x < W \<Longrightarrow> nat ((int x - 1) mod int W) = (x + W - 1) mod W"
proof -
  assume "x < W"
  have "(int x - 1) mod int W = (int x - 1 + int W) mod int W" by simp
  also have "int x - 1 + int W = int (x + W - 1)" using \<open>x < W\<close> by simp
  also have "int (x + W - 1) mod int W = int ((x + W - 1) mod W)" by (simp add: zmod_int)
  finally show ?thesis by simp
qed

lemma int_right: "nat ((int x + 1) mod int W) = (x + 1) mod W"
  by (metis nat_int of_nat_Suc of_nat_mod Suc_eq_plus1 of_nat_add of_nat_1)

lemma dims_le:
  fixes H W :: nat
  assumes "y < H" and "x < W" and "H * W < 2 ^ 30"
  shows "W \<le> 2 ^ 31" and "H \<le> 2 ^ 31"
proof -
  have "W \<le> H * W" using assms(1) by (cases H) simp_all
  also have "\<dots> < 2 ^ 30" by (rule assms(3))
  also have "(2 :: nat) ^ 30 \<le> 2 ^ 31" by simp
  finally show "W \<le> 2 ^ 31" by simp
  have "H \<le> H * W" using assms(2) by (cases W) simp_all
  also have "\<dots> < 2 ^ 30" by (rule assms(3))
  also have "(2 :: nat) ^ 30 \<le> 2 ^ 31" by simp
  finally show "H \<le> 2 ^ 31" by simp
qed

lemma neighbor_count_unfold:
  assumes "x < W" and "y < H"
  shows "neighbor_count H W g x y =
           g ! (((y + H - 1) mod H) * W + (x + W - 1) mod W)
         + g ! (((y + H - 1) mod H) * W + x)
         + g ! (((y + H - 1) mod H) * W + (x + 1) mod W)
         + g ! (y * W + (x + W - 1) mod W)
         + g ! (y * W + (x + 1) mod W)
         + g ! (((y + 1) mod H) * W + (x + W - 1) mod W)
         + g ! (((y + 1) mod H) * W + x)
         + g ! (((y + 1) mod H) * W + (x + 1) mod W)"
  using assms by (simp add: neighbor_count_def offsets_def int_left int_right)

lemma count_neighbours_spec:
  fixes x y w h :: u32 and cs :: "u8 list"
  assumes x: "x < w" and y: "y < h"
    and size: "unat h * unat w < 2 ^ 30"
    and len: "length cs = unat h * unat w"
    and bits: "\<forall>c \<in> set cs. c \<le> 1"
  shows "\<exists>v. count_neighbours cs w h x y = Some v \<and>
             unat v = neighbor_count (unat h) (unat w) (map unat cs) (unat x) (unat y)"
proof -
  let ?W = "unat w" and ?H = "unat h" and ?X = "unat x" and ?Y = "unat y"
  have X: "?X < ?W" and Y: "?Y < ?H" using x y by (simp_all add: word_less_nat_alt)
  have big: "?H * ?W < 2 ^ 32" using size by simp
  have W31: "?W \<le> 2 ^ 31" and H31: "?H \<le> 2 ^ 31"
    using dims_le [OF Y X size] by simp_all
  define l where "l = (x - 1 + w) mod w"
  define r where "r = (x + 1) mod w"
  define u where "u = (y - 1 + h) mod h"
  define d where "d = (y + 1) mod h"
  have l: "unat l = (?X + ?W - 1) mod ?W" unfolding l_def using x W31 by (rule u32_left)
  have r: "unat r = (?X + 1) mod ?W" unfolding r_def using x by (rule u32_right)
  have u: "unat u = (?Y + ?H - 1) mod ?H" unfolding u_def using y H31 by (rule u32_left)
  have d: "unat d = (?Y + 1) mod ?H" unfolding d_def using y by (rule u32_right)
  have lW: "unat l < ?W" and rW: "unat r < ?W" using X by (simp_all add: l r)
  have uH: "unat u < ?H" and dH: "unat d < ?H" using Y by (simp_all add: u d)
  define k1 where "k1 = unat u * ?W + unat l"
  define k2 where "k2 = unat u * ?W + ?X"
  define k3 where "k3 = unat u * ?W + unat r"
  define k4 where "k4 = ?Y * ?W + unat l"
  define k5 where "k5 = ?Y * ?W + unat r"
  define k6 where "k6 = unat d * ?W + unat l"
  define k7 where "k7 = unat d * ?W + ?X"
  define k8 where "k8 = unat d * ?W + unat r"
  note k = k1_def k2_def k3_def k4_def k5_def k6_def k7_def k8_def
  note idx = u32_index [OF _ _ big]
  have i: "unat (l + u * w) = k1" "unat (x + u * w) = k2" "unat (r + u * w) = k3"
    "unat (l + y * w) = k4" "unat (r + y * w) = k5" "unat (l + d * w) = k6"
    "unat (x + d * w) = k7" "unat (r + d * w) = k8"
    unfolding k using lW rW uH dH X Y by (simp_all add: idx(1))
  have b: "k1 < length cs" "k2 < length cs" "k3 < length cs" "k4 < length cs"
    "k5 < length cs" "k6 < length cs" "k7 < length cs" "k8 < length cs"
    unfolding k using lW rW uH dH X Y by (simp_all add: len torus_lt2)
  have le1: "\<And>j. j < length cs \<Longrightarrow> cs ! j \<le> 1" using bits by simp
  have "count_neighbours cs w h x y =
          Some (ucast ((ucast (cs ! k1) :: i32) + ucast (cs ! k2) + ucast (cs ! k3)
                 + ucast (cs ! k4) + ucast (cs ! k5) + ucast (cs ! k6) + ucast (cs ! k7)
                 + ucast (cs ! k8)))"
    unfolding count_neighbours_def l_def [symmetric] r_def [symmetric] u_def [symmetric]
      d_def [symmetric]
    by (simp add: vec_read_def i b)
  moreover have "unat (ucast ((ucast (cs ! k1) :: i32) + ucast (cs ! k2) + ucast (cs ! k3)
                 + ucast (cs ! k4) + ucast (cs ! k5) + ucast (cs ! k6) + ucast (cs ! k7)
                 + ucast (cs ! k8)) :: u8)
        = unat (cs ! k1) + unat (cs ! k2) + unat (cs ! k3) + unat (cs ! k4)
          + unat (cs ! k5) + unat (cs ! k6) + unat (cs ! k7) + unat (cs ! k8)"
    by (rule u8_sum8) (simp_all add: le1 b)
  moreover have "neighbor_count ?H ?W (map unat cs) ?X ?Y
        = unat (cs ! k1) + unat (cs ! k2) + unat (cs ! k3) + unat (cs ! k4)
          + unat (cs ! k5) + unat (cs ! k6) + unat (cs ! k7) + unat (cs ! k8)"
    unfolding neighbor_count_unfold [OF X Y] l [symmetric] r [symmetric] u [symmetric]
      d [symmetric] k [symmetric]
    using b by simp
  ultimately show ?thesis by simp
qed

section \<open>The OpenMP step on a square grid\<close>

lemma rule_openmp_spec: "unat (rule_openmp n c) = rule_spec (unat c) (unat n)"
  by (simp add: rule_openmp_def rule_spec_def alive_def dead_def word_unat_eq_iff)

lemma rule_cuda_spec: "unat (rule_cuda n c) = rule_spec (unat c) (unat n)"
  by (simp add: rule_cuda_def rule_spec_def word_unat_eq_iff)

lemma rule_spec_le: "s \<le> 1 \<Longrightarrow> rule_spec s n \<le> 1"
  by (simp add: rule_spec_def)

lemma cell_openmp_eq:
  assumes "count_neighbours (cells s) (width s) (height s) x y = Some n"
    and "unat (index_openmp (height s) x y) = K"
    and "K < length (cells s)" and "K < length (nextcells s)"
  shows "cell_openmp s x y = Some (s\<lparr>nextcells := (nextcells s)[K := rule_openmp n (cells s ! K)]\<rparr>)"
  using assms
  by (simp add: cell_openmp_def rule_openmp_def vec_read_def vec_write_def Let_def)

lemma length_step_spec: "length (step_spec H W g) = H * W"
  by (simp add: step_spec_def)

lemma step_spec_nth:
  assumes "x < W" and "y < H"
  shows "step_spec H W g ! (y * W + x) = rule_spec (g ! (y * W + x)) (neighbor_count H W g x y)"
proof -
  have "y * W + x < H * W" using assms by (rule torus_lt2)
  then show ?thesis using assms by (simp add: step_spec_def)
qed

lemma cell_openmp_square:
  fixes s :: "u8 life"
  assumes x: "x < width s" and y: "y < height s" and sq: "height s = width s"
    and size: "unat (height s) * unat (width s) < 2 ^ 30"
    and len: "length (cells s) = unat (height s) * unat (width s)"
    and len': "length (nextcells s) = unat (height s) * unat (width s)"
    and bits: "\<forall>c \<in> set (cells s). c \<le> 1"
  shows "\<exists>v. cell_openmp s x y
               = Some (s\<lparr>nextcells := (nextcells s)[unat y * unat (width s) + unat x := v]\<rparr>) \<and>
             unat v = step_spec (unat (height s)) (unat (width s)) (map unat (cells s))
                        ! (unat y * unat (width s) + unat x)"
proof -
  let ?W = "unat (width s)" and ?H = "unat (height s)"
  let ?K = "unat y * ?W + unat x"
  have X: "unat x < ?W" and Y: "unat y < ?H" using x y by (simp_all add: word_less_nat_alt)
  have K: "?K < ?H * ?W" using X Y by (rule torus_lt2)
  from count_neighbours_spec [OF x y size len bits]
  obtain n where n: "count_neighbours (cells s) (width s) (height s) x y = Some n"
    and nv: "unat n = neighbor_count ?H ?W (map unat (cells s)) (unat x) (unat y)" by blast
  have "unat (x + y * width s) = unat x + unat y * ?W"
    using X Y size by (intro u32_index(1) [where H = "?H"]) simp_all
  then have idx: "unat (index_openmp (height s) x y) = ?K"
    by (simp add: index_openmp_def sq add.commute)
  have c: "cell_openmp s x y
             = Some (s\<lparr>nextcells := (nextcells s)[?K := rule_openmp n (cells s ! ?K)]\<rparr>)"
    using n idx K by (intro cell_openmp_eq) (simp_all add: len len')
  have "unat (rule_openmp n (cells s ! ?K))
          = step_spec ?H ?W (map unat (cells s)) ! ?K"
    using K by (simp add: rule_openmp_spec step_spec_nth [OF X Y] nv len)
  with c show ?thesis by blast
qed

lemma written_all: "written G (length G) nc \<Longrightarrow> map unat nc = G"
  by (auto simp: written_def list_eq_iff_nth_eq)

lemma written_update:
  assumes "written G m nc" and "m < length G" and "unat v = G ! m"
  shows "written G (Suc m) (nc[m := v])"
  using assms by (auto simp: written_def nth_list_update less_Suc_eq)

lemma step_openmp_square:
  fixes s :: "u8 life"
  assumes sq: "height s = width s"
    and size: "unat (height s) * unat (width s) < 2 ^ 30"
    and len: "length (cells s) = unat (height s) * unat (width s)"
    and len': "length (nextcells s) = unat (height s) * unat (width s)"
    and bits: "\<forall>c \<in> set (cells s). c \<le> 1"
  shows "\<exists>s'. step_openmp s = Some s' \<and> cells s' = cells s \<and> height s' = height s \<and>
              width s' = width s \<and>
              map unat (nextcells s')
                = step_spec (unat (height s)) (unat (width s)) (map unat (cells s))"
proof -
  let ?W = "unat (width s)" and ?H = "unat (height s)"
  define G where "G = step_spec ?H ?W (map unat (cells s))"
  have lG: "length G = ?H * ?W" by (simp add: G_def length_step_spec)
  define frame where "frame t \<longleftrightarrow> cells t = cells s \<and> height t = height s \<and> width t = width s"
    for t :: "u8 life"
  define P where "P y t \<longleftrightarrow> frame t \<and> written G (unat y * ?W) (nextcells t)"
    for y :: u32 and t :: "u8 life"
  have P0: "P 0 s" by (simp add: P_def frame_def written_def lG len')
  have outer: "\<exists>b'. for_u32 0 (width s) (\<lambda>x s'. cell_openmp s' x j) b = Some b' \<and> P (j + 1) b'"
    if j: "j < height s" and Pj: "P j b" for j b
  proof -
    define Q where "Q x t \<longleftrightarrow> frame t \<and> written G (unat j * ?W + unat x) (nextcells t)"
      for x :: u32 and t :: "u8 life"
    have J: "unat j < ?H" using j by (simp add: word_less_nat_alt)
    have Q0: "Q 0 b" using Pj by (simp add: P_def Q_def)
    have inner: "\<exists>t'. cell_openmp t i j = Some t' \<and> Q (i + 1) t'"
      if i: "i < width s" and Qi: "Q i t" for i t
    proof -
      have fr: "cells t = cells s" "height t = height s" "width t = width s"
        and wr: "written G (unat j * ?W + unat i) (nextcells t)"
        using Qi by (simp_all add: Q_def frame_def)
      have I: "unat i < ?W" using i by (simp add: word_less_nat_alt)
      have K: "unat j * ?W + unat i < length G" unfolding lG using I J by (rule torus_lt2)
      from cell_openmp_square [of i t j] i j sq size len bits fr wr lG
      obtain v where c: "cell_openmp t i j
            = Some (t\<lparr>nextcells := (nextcells t)[unat j * ?W + unat i := v]\<rparr>)"
        and v: "unat v = G ! (unat j * ?W + unat i)"
        by (auto simp: written_def G_def)
      have "written G (Suc (unat j * ?W + unat i)) ((nextcells t)[unat j * ?W + unat i := v])"
        using wr K v by (rule written_update)
      then have "Q (i + 1) (t\<lparr>nextcells := (nextcells t)[unat j * ?W + unat i := v]\<rparr>)"
        using fr i by (simp add: Q_def frame_def u32_succ)
      with c show ?thesis by blast
    qed
    from for_u32_total [of 0 "width s" Q b "\<lambda>x s'. cell_openmp s' x j", OF _ Q0]
    obtain b' where l: "for_u32 0 (width s) (\<lambda>x s'. cell_openmp s' x j) b = Some b'"
      and Qb: "Q (width s) b'"
      using inner by auto
    have "unat j * ?W + ?W = unat (j + 1) * ?W" using j by (simp add: u32_succ)
    with Qb have "P (j + 1) b'" by (simp add: Q_def P_def)
    with l show ?thesis by blast
  qed
  from for_u32_total [of 0 "height s" P s
         "\<lambda>y. for_u32 0 (width s) (\<lambda>x s'. cell_openmp s' x y)", OF _ P0]
  obtain s' where r: "step_openmp s = Some s'" and Ps: "P (height s) s'"
    using outer by (auto simp: step_openmp_def)
  from Ps have "written G (length G) (nextcells s')" by (simp add: P_def lG)
  then have "map unat (nextcells s') = G" by (rule written_all)
  with r Ps show ?thesis by (auto simp: P_def frame_def G_def)
qed

lemma bits_step_spec:
  assumes "bits g" and "length g = H * W"
  shows "bits (step_spec H W g)"
  using assms by (auto simp: bits_def step_spec_def rule_spec_def)

lemma bits_funpow:
  assumes "bits g" and "length g = H * W"
  shows "bits ((step_spec H W ^^ k) g) \<and> length ((step_spec H W ^^ k) g) = H * W"
  using assms by (induction k) (auto simp: bits_step_spec length_step_spec)

lemma bits_unat: "bits (map unat cs) \<longleftrightarrow> (\<forall>c \<in> set cs. c \<le> 1)"
  by (auto simp: bits_def word_le_nat_alt)

lemma turn_openmp_square:
  fixes s :: "u8 life"
  assumes sq: "height s = width s"
    and size: "unat (height s) * unat (width s) < 2 ^ 30"
    and len: "length (cells s) = unat (height s) * unat (width s)"
    and len': "length (nextcells s) = unat (height s) * unat (width s)"
    and b: "bits (map unat (cells s))"
  shows "\<exists>s'. turn_openmp s = Some s' \<and> height s' = height s \<and> width s' = width s \<and>
              length (nextcells s') = unat (height s) * unat (width s) \<and>
              map unat (cells s')
                = step_spec (unat (height s)) (unat (width s)) (map unat (cells s))"
proof -
  from b have "\<forall>c \<in> set (cells s). c \<le> 1" by (simp add: bits_unat)
  from step_openmp_square [OF sq size len len' this]
  obtain s' where "step_openmp s = Some s'" "cells s' = cells s" "height s' = height s"
    "width s' = width s"
    "map unat (nextcells s') = step_spec (unat (height s)) (unat (width s)) (map unat (cells s))"
    by blast
  then show ?thesis by (simp add: turn_openmp_def swap_cells_def len)
qed

lemma run_openmp_square:
  fixes s :: "u8 life"
  assumes sq: "height s = width s"
    and size: "unat (height s) * unat (width s) < 2 ^ 30"
    and len: "length (cells s) = unat (height s) * unat (width s)"
    and len': "length (nextcells s) = unat (height s) * unat (width s)"
    and b: "bits (map unat (cells s))"
  shows "\<exists>s'. run_openmp s numTurns = Some s' \<and> height s' = height s \<and> width s' = width s \<and>
              map unat (cells s')
                = (step_spec (unat (height s)) (unat (width s)) ^^ unat numTurns)
                    (map unat (cells s))"
proof -
  let ?W = "unat (width s)" and ?H = "unat (height s)"
  define P where "P t st \<longleftrightarrow> height st = height s \<and> width st = width s \<and>
      length (nextcells st) = ?H * ?W \<and>
      map unat (cells st) = (step_spec ?H ?W ^^ unat t) (map unat (cells s))"
    for t :: u32 and st :: "u8 life"
  have P0: "P 0 s" by (simp add: P_def len')
  have step: "\<exists>b'. turn_openmp st = Some b' \<and> P (j + 1) b'"
    if j: "j < numTurns" and Pj: "P j st" for j st
  proof -
    from Pj have fr: "height st = height s" "width st = width s"
      "length (nextcells st) = ?H * ?W"
      and g: "map unat (cells st) = (step_spec ?H ?W ^^ unat j) (map unat (cells s))"
      by (simp_all add: P_def)
    from bits_funpow [OF b, of ?H ?W "unat j"] len g
    have bj: "bits (map unat (cells st))" and lj: "length (map unat (cells st)) = ?H * ?W"
      by simp_all
    from turn_openmp_square [of st] fr sq size lj bj
    obtain b' where "turn_openmp st = Some b'" "height b' = height s" "width b' = width s"
      "length (nextcells b') = ?H * ?W"
      "map unat (cells b') = step_spec ?H ?W (map unat (cells st))"
      by auto
    then show ?thesis using g j by (auto simp: P_def u32_succ)
  qed
  from for_u32_total [of 0 numTurns P s "\<lambda>t. turn_openmp", OF _ P0] step
  obtain s' where "run_openmp s numTurns = Some s'" "P numTurns s'"
    by (auto simp: run_openmp_def)
  then show ?thesis by (auto simp: P_def)
qed

section \<open>The arithmetic of the kernel without overflow\<close>

lemma smod_nat: "int a smod int b = int (a mod b)"
  by (cases "a = 0") (simp_all add: signed_modulo_int_def zmod_int sgn_if)

lemma sdiv_nat: "int a sdiv int b = int (a div b)"
  by (cases "a = 0"; cases "b = 0") (simp_all add: signed_divide_int_def zdiv_int sgn_if)

lemma sint_nonneg:
  fixes a :: i32
  assumes "unat a < 2 ^ 31"
  shows "sint a = int (unat a)"
proof -
  have "int (unat a) < int (2 ^ 31)" using assms by (simp only: of_nat_less_iff)
  then have lt: "uint a < 2 ^ 31" by (simp only: uint_nat of_nat_power of_nat_numeral)
  have "- (2 ^ 31) \<le> (0 :: int)" by simp
  then have "- (2 ^ 31) \<le> uint a" using uint_ge_0 [of a] by (rule order_trans)
  then have "signed_take_bit 31 (uint a) = uint a"
    using lt by (rule signed_take_bit_int_eq_self)
  moreover have "sint a = signed_take_bit 31 (uint a)" by (simp add: sint_uint)
  ultimately have "sint a = uint a" by simp
  then show ?thesis by (simp only: uint_nat)
qed

lemma int_mod_eq:
  fixes a b :: i32
  assumes "unat a < 2 ^ 31" and "unat b < 2 ^ 31"
  shows "int_mod a b = a mod b"
proof -
  have "int_mod a b = word_of_nat (unat a mod unat b)"
    unfolding int_mod_def sint_nonneg [OF assms(1)] sint_nonneg [OF assms(2)] smod_nat
    by simp
  also have "\<dots> = a mod b"
    by (rule word_arith_nat_mod [symmetric])
  finally show ?thesis .
qed

lemma int_div_eq:
  fixes a b :: i32
  assumes "unat a < 2 ^ 31" and "unat b < 2 ^ 31"
  shows "int_div a b = a div b"
proof -
  have "int_div a b = word_of_nat (unat a div unat b)"
    unfolding int_div_def sint_nonneg [OF assms(1)] sint_nonneg [OF assms(2)] sdiv_nat
    by simp
  also have "\<dots> = a div b"
    by (rule word_arith_nat_div [symmetric])
  finally show ?thesis .
qed

lemma dev_read_nat:
  assumes "p < length mem" and "unat k < length (mem ! p)" and "length (mem ! p) \<le> 2 ^ 31"
  shows "dev_read mem p k = Some (mem ! p ! unat k)"
proof -
  have "unat k < 2 ^ 31" using assms(2,3) by (rule less_le_trans)
  then have "sint k = int (unat k)" by (rule sint_nonneg)
  then show ?thesis using assms(1,2) by (simp add: dev_read_def vec_read_def)
qed

lemma dev_write_nat:
  assumes "p < length mem" and "unat k < length (mem ! p)" and "length (mem ! p) \<le> 2 ^ 31"
  shows "dev_write mem p k v = Some (mem[p := (mem ! p)[unat k := v]])"
proof -
  have "unat k < 2 ^ 31" using assms(2,3) by (rule less_le_trans)
  then have "sint k = int (unat k)" by (rule sint_nonneg)
  then show ?thesis using assms(1,2) by (simp add: dev_write_def vec_write_def)
qed

lemma i32_sum8:
  fixes c1 c2 c3 c4 c5 c6 c7 c8 :: i32
  assumes "c1 \<le> 1" "c2 \<le> 1" "c3 \<le> 1" "c4 \<le> 1" "c5 \<le> 1" "c6 \<le> 1" "c7 \<le> 1" "c8 \<le> 1"
  shows "unat (c1 + c2 + c3 + c4 + c5 + c6 + c7 + c8)
         = unat c1 + unat c2 + unat c3 + unat c4 + unat c5 + unat c6 + unat c7 + unat c8"
proof -
  have b: "unat c1 \<le> 1" "unat c2 \<le> 1" "unat c3 \<le> 1" "unat c4 \<le> 1"
          "unat c5 \<le> 1" "unat c6 \<le> 1" "unat c7 \<le> 1" "unat c8 \<le> 1"
    using assms by (simp_all add: word_le_nat_alt)
  then show ?thesis by (simp add: unat_word_ariths)
qed

lemma u32_pred_add:
  fixes x w :: u32
  assumes "x < w" and "unat w \<le> 2 ^ 31"
  shows "unat (x - 1 + w) = unat x + unat w - 1"
proof -
  have xw: "unat x < unat w" using assms(1) by (simp add: word_less_nat_alt)
  have e: "x - 1 + w = (x + w) - 1" by simp
  have s: "unat (x + w) = unat x + unat w"
    using xw assms(2) by (simp add: unat_add_lem [THEN iffD1])
  have nz: "x + w \<noteq> 0" using xw s
    by (metis add_is_0 not_less_zero unat_0)
  have "unat ((x + w) - 1) = unat x + unat w - 1"
    using unat_minus_one [OF nz] s by simp
  then show ?thesis by (simp only: e)
qed

lemma torus_int_mod:
  fixes a b :: i32
  assumes "a < b" and "unat b \<le> 2 ^ 30"
  shows "int_mod (a - 1 + b) b = (a - 1 + b) mod b"
    and "int_mod (a + 1) b = (a + 1) mod b"
proof -
  have ab: "unat a < unat b" using assms(1) by (simp add: word_less_nat_alt)
  have b31: "unat b < 2 ^ 31" using assms(2) by simp
  have "unat (a - 1 + b) = unat a + unat b - 1"
    using assms(1) by (rule u32_pred_add) (use assms(2) in simp)
  then have "unat (a - 1 + b) < 2 ^ 31" using ab assms(2) by simp
  then show "int_mod (a - 1 + b) b = (a - 1 + b) mod b" using b31 by (rule int_mod_eq)
  have "unat (a + 1) = Suc (unat a)" using assms(1) by (rule u32_succ)
  then have "unat (a + 1) < 2 ^ 31" using ab assms(2) by simp
  then show "int_mod (a + 1) b = (a + 1) mod b" using b31 by (rule int_mod_eq)
qed

section \<open>The kernel body against the specification\<close>

lemma dims_le30:
  fixes H W :: nat
  assumes "y < H" and "x < W" and "H * W < 2 ^ 30"
  shows "W \<le> 2 ^ 30" and "H \<le> 2 ^ 30"
proof -
  have "W \<le> H * W" using assms(1) by (cases H) simp_all
  also have "\<dots> < 2 ^ 30" by (rule assms(3))
  finally show "W \<le> 2 ^ 30" by simp
  have "H \<le> H * W" using assms(2) by (cases W) simp_all
  also have "\<dots> < 2 ^ 30" by (rule assms(3))
  finally show "H \<le> 2 ^ 30" by simp
qed

lemma neighbours_cuda_spec:
  fixes x y w h :: i32 and mem :: devmem
  assumes x: "x < w" and y: "y < h"
    and size: "unat h * unat w < 2 ^ 30"
    and cur: "current < length mem"
    and len: "length (mem ! current) = unat h * unat w"
    and bits: "\<forall>c \<in> set (mem ! current). c \<le> 1"
  shows "\<exists>v. neighbours_cuda mem current w h x y = Some v \<and>
             unat v = neighbor_count (unat h) (unat w) (map unat (mem ! current)) (unat x) (unat y)"
proof -
  let ?W = "unat w" and ?H = "unat h" and ?X = "unat x" and ?Y = "unat y"
  let ?cs = "mem ! current"
  have X: "?X < ?W" and Y: "?Y < ?H" using x y by (simp_all add: word_less_nat_alt)
  have big: "?H * ?W < 2 ^ 32" using size by simp
  have W31: "?W \<le> 2 ^ 31" and H31: "?H \<le> 2 ^ 31"
    using dims_le [OF Y X size] by simp_all
  have W30: "?W \<le> 2 ^ 30" and H30: "?H \<le> 2 ^ 30"
    using dims_le30 [OF Y X size] by simp_all
  have l31: "length ?cs \<le> 2 ^ 31" using size by (simp add: len)
  define l where "l = (x - 1 + w) mod w"
  define r where "r = (x + 1) mod w"
  define u where "u = (y - 1 + h) mod h"
  define d where "d = (y + 1) mod h"
  have im: "int_mod (x - 1 + w) w = l" "int_mod (x + 1) w = r"
    "int_mod (y - 1 + h) h = u" "int_mod (y + 1) h = d"
    unfolding l_def r_def u_def d_def
    using torus_int_mod [OF x W30] torus_int_mod [OF y H30] by simp_all
  have l: "unat l = (?X + ?W - 1) mod ?W" unfolding l_def using x W31 by (rule u32_left)
  have r: "unat r = (?X + 1) mod ?W" unfolding r_def using x by (rule u32_right)
  have u: "unat u = (?Y + ?H - 1) mod ?H" unfolding u_def using y H31 by (rule u32_left)
  have d: "unat d = (?Y + 1) mod ?H" unfolding d_def using y by (rule u32_right)
  have lW: "unat l < ?W" and rW: "unat r < ?W" using X by (simp_all add: l r)
  have uH: "unat u < ?H" and dH: "unat d < ?H" using Y by (simp_all add: u d)
  define k1 where "k1 = unat u * ?W + unat l"
  define k2 where "k2 = unat u * ?W + ?X"
  define k3 where "k3 = unat u * ?W + unat r"
  define k4 where "k4 = ?Y * ?W + unat l"
  define k5 where "k5 = ?Y * ?W + unat r"
  define k6 where "k6 = unat d * ?W + unat l"
  define k7 where "k7 = unat d * ?W + ?X"
  define k8 where "k8 = unat d * ?W + unat r"
  note k = k1_def k2_def k3_def k4_def k5_def k6_def k7_def k8_def
  note idx = u32_index [OF _ _ big]
  have i: "unat (l + u * w) = k1" "unat (x + u * w) = k2" "unat (r + u * w) = k3"
    "unat (l + y * w) = k4" "unat (r + y * w) = k5" "unat (l + d * w) = k6"
    "unat (x + d * w) = k7" "unat (r + d * w) = k8"
    unfolding k using lW rW uH dH X Y by (simp_all add: idx(1))
  have b: "k1 < length ?cs" "k2 < length ?cs" "k3 < length ?cs" "k4 < length ?cs"
    "k5 < length ?cs" "k6 < length ?cs" "k7 < length ?cs" "k8 < length ?cs"
    unfolding k using lW rW uH dH X Y by (simp_all add: len torus_lt2)
  have le1: "\<And>j. j < length ?cs \<Longrightarrow> ?cs ! j \<le> 1" using bits by simp
  have rd: "\<And>a j. unat a = j \<Longrightarrow> j < length ?cs \<Longrightarrow> dev_read mem current a = Some (?cs ! j)"
    using dev_read_nat [OF cur _ l31] by auto
  have "neighbours_cuda mem current w h x y =
          Some (?cs ! k1 + ?cs ! k2 + ?cs ! k3 + ?cs ! k4 + ?cs ! k5 + ?cs ! k6 + ?cs ! k7
                 + ?cs ! k8)"
    unfolding neighbours_cuda_def im
    by (simp add: rd [OF i(1) b(1)] rd [OF i(2) b(2)] rd [OF i(3) b(3)] rd [OF i(4) b(4)]
          rd [OF i(5) b(5)] rd [OF i(6) b(6)] rd [OF i(7) b(7)] rd [OF i(8) b(8)])
  moreover have "unat (?cs ! k1 + ?cs ! k2 + ?cs ! k3 + ?cs ! k4 + ?cs ! k5 + ?cs ! k6
                 + ?cs ! k7 + ?cs ! k8)
        = unat (?cs ! k1) + unat (?cs ! k2) + unat (?cs ! k3) + unat (?cs ! k4)
          + unat (?cs ! k5) + unat (?cs ! k6) + unat (?cs ! k7) + unat (?cs ! k8)"
    by (rule i32_sum8) (simp_all add: le1 b)
  moreover have "neighbor_count ?H ?W (map unat ?cs) ?X ?Y
        = unat (?cs ! k1) + unat (?cs ! k2) + unat (?cs ! k3) + unat (?cs ! k4)
          + unat (?cs ! k5) + unat (?cs ! k6) + unat (?cs ! k7) + unat (?cs ! k8)"
    unfolding neighbor_count_unfold [OF X Y] l [symmetric] r [symmetric] u [symmetric]
      d [symmetric] k [symmetric]
    using b by simp
  ultimately show ?thesis by simp
qed

lemma step_spec_nth':
  assumes "k < H * W"
  shows "step_spec H W g ! k = rule_spec (g ! k) (neighbor_count H W g (k mod W) (k div W))"
  using assms by (simp add: step_spec_def)

lemma cell_cuda_spec:
  fixes i w h :: i32 and mem :: devmem
  assumes K: "unat i < unat h * unat w"
    and size: "unat h * unat w < 2 ^ 30"
    and cur: "current < length mem" and nxt: "next < length mem"
    and len: "length (mem ! current) = unat h * unat w"
    and len': "length (mem ! next) = unat h * unat w"
    and bits: "\<forall>c \<in> set (mem ! current). c \<le> 1"
  shows "\<exists>v. cell_cuda w h current next i mem
               = Some (mem[next := (mem ! next)[unat i := v]]) \<and>
             unat v = step_spec (unat h) (unat w) (map unat (mem ! current)) ! unat i"
proof -
  let ?W = "unat w" and ?H = "unat h" and ?K = "unat i"
  let ?cs = "mem ! current"
  have Wpos: "0 < ?W" and Hpos: "0 < ?H" using K by (cases "?W = 0"; cases "?H = 0"; simp)+
  then have nz: "w \<noteq> 0" "h \<noteq> 0" by (auto simp: unat_eq_zero)
  have W30: "?W \<le> 2 ^ 30" using dims_le30(1) [OF Hpos Wpos size] .
  have i31: "?K < 2 ^ 31" using K size by simp
  have w31: "?W < 2 ^ 31" using W30 by simp
  have l31: "length ?cs \<le> 2 ^ 31" "length (mem ! next) \<le> 2 ^ 31"
    using size by (simp_all add: len len')
  define x where "x = i mod w"
  define y where "y = i div w"
  have xy: "int_mod i w = x" "int_div i w = y"
    unfolding x_def y_def using i31 w31 by (rule int_mod_eq, rule int_div_eq)
  have X: "unat x = ?K mod ?W" and Y: "unat y = ?K div ?W"
    by (simp_all add: x_def y_def unat_mod unat_div)
  have xw: "x < w" using Wpos by (simp add: word_less_nat_alt X)
  have "?K div ?W < ?H" using K Wpos by (simp add: less_mult_imp_div_less)
  then have yh: "y < h" by (simp add: word_less_nat_alt Y)
  from neighbours_cuda_spec [OF xw yh size cur len bits]
  obtain n where n: "neighbours_cuda mem current w h x y = Some n"
    and nv: "unat n = neighbor_count ?H ?W (map unat ?cs) (?K mod ?W) (?K div ?W)"
    by (auto simp: X Y)
  have rd: "dev_read mem current i = Some (?cs ! ?K)"
    using cur _ l31(1) by (rule dev_read_nat) (simp add: len K)
  have wr: "\<And>v. dev_write mem next i v = Some (mem[next := (mem ! next)[?K := v]])"
    using nxt _ l31(2) by (rule dev_write_nat) (simp add: len' K)
  have c: "cell_cuda w h current next i mem
             = Some (mem[next := (mem ! next)[?K := rule_cuda n (?cs ! ?K)]])"
    by (simp add: cell_cuda_def nz xy n rd wr rule_cuda_def Let_def)
  have "unat (rule_cuda n (?cs ! ?K)) = step_spec ?H ?W (map unat ?cs) ! ?K"
    using K by (simp add: rule_cuda_spec step_spec_nth' nv len)
  with c show ?thesis by blast
qed

section \<open>The kernel launch against the specification\<close>

lemma sless_nat:
  fixes a b :: i32
  assumes "unat a < 2 ^ 31" and "unat b < 2 ^ 31"
  shows "a <s b \<longleftrightarrow> unat a < unat b"
  unfolding word_sless_alt sint_nonneg [OF assms(1)] sint_nonneg [OF assms(2)]
  by (rule of_nat_less_iff)

lemma thread_loop_stop:
  "\<not> i <s n \<Longrightarrow> thread_loop n w h current next stride i mem = Some mem"
  by (subst thread_loop.simps) simp

lemma thread_loop_one:
  fixes n i stride :: i32
  assumes n: "unat n < 2 ^ 31" and i: "unat i < 2 ^ 31"
    and pos: "0 < unat stride" and cover: "unat n \<le> unat stride"
    and sum: "unat i + unat stride < 2 ^ 31"
  shows "thread_loop n w h current next stride i mem
           = (if unat i < unat n then cell_cuda w h current next i mem else Some mem)"
proof -
  have s31: "unat stride < 2 ^ 31" using sum by simp
  have lt: "i <s n \<longleftrightarrow> unat i < unat n" using i n by (rule sless_nat)
  have "unat (0 :: i32) < 2 ^ 31" by simp
  then have "0 <s stride \<longleftrightarrow> unat (0 :: i32) < unat stride" using s31 by (rule sless_nat)
  then have sp: "0 <s stride" using pos by simp
  have ss: "sint i + sint stride < 2 ^ 31"
  proof -
    have "int (unat i + unat stride) < int (2 ^ 31)" using sum by (simp only: of_nat_less_iff)
    then show ?thesis
      unfolding sint_nonneg [OF i] sint_nonneg [OF s31] by (simp only: of_nat_add of_nat_power of_nat_numeral)
  qed
  have u: "unat (i + stride) = unat i + unat stride"
    using sum by (intro u32_add) simp
  then have "unat (i + stride) < 2 ^ 31" using sum by simp
  then have "(i + stride) <s n \<longleftrightarrow> unat (i + stride) < unat n" using n by (rule sless_nat)
  then have nl: "\<not> (i + stride) <s n" using u cover by simp
  show ?thesis
  proof (cases "unat i < unat n")
    case True
    then show ?thesis
      using sp ss
      by (subst thread_loop.simps)
         (simp add: lt thread_loop_stop [OF nl] split: bind_splits)
  next
    case False
    then show ?thesis by (simp add: thread_loop_stop lt)
  qed
qed

lemma launch_threads_rule:
  assumes "launch_threads ids k mem = Some r" and "P 0 mem"
    and "\<And>j m m'. j < length ids \<Longrightarrow> P j m \<Longrightarrow> k (fst (ids ! j)) (snd (ids ! j)) m = Some m'
           \<Longrightarrow> P (Suc j) m'"
  shows "P (length ids) r"
  using assms
proof (induction ids arbitrary: mem P)
  case Nil
  then show ?case by simp
next
  case (Cons bt ids)
  obtain b t where bt: "bt = (b, t)" by (cases bt)
  from Cons.prems(1) obtain m1 where m1: "k b t mem = Some m1"
    and r: "launch_threads ids k m1 = Some r"
    by (auto simp: bt split: bind_splits)
  have P1: "P (Suc 0) m1" using Cons.prems(3) [of 0 mem m1] Cons.prems(2) m1 by (simp add: bt)
  have "(\<lambda>j. P (Suc j)) (length ids) r"
  proof (rule Cons.IH [OF r])
    show "P (Suc 0) m1" by (rule P1)
  next
    fix j m m' assume "j < length ids" "P (Suc j) m" "k (fst (ids ! j)) (snd (ids ! j)) m = Some m'"
    then show "P (Suc (Suc j)) m'" using Cons.prems(3) [of "Suc j" m m'] by simp
  qed
  then show ?case by simp
qed

lemma launch_threads_total:
  assumes "P 0 mem"
    and "\<And>j m. j < length ids \<Longrightarrow> P j m
           \<Longrightarrow> \<exists>m'. k (fst (ids ! j)) (snd (ids ! j)) m = Some m' \<and> P (Suc j) m'"
  shows "\<exists>r. launch_threads ids k mem = Some r \<and> P (length ids) r"
  using assms
proof (induction ids arbitrary: mem P)
  case Nil
  then show ?case by simp
next
  case (Cons bt ids)
  obtain b t where bt: "bt = (b, t)" by (cases bt)
  from Cons.prems(2) [of 0 mem] Cons.prems(1)
  obtain m1 where m1: "k b t mem = Some m1" and P1: "P (Suc 0) m1" by (auto simp: bt)
  have "\<exists>r. launch_threads ids k m1 = Some r \<and> (\<lambda>j. P (Suc j)) (length ids) r"
  proof (rule Cons.IH)
    show "P (Suc 0) m1" by (rule P1)
  next
    fix j m assume "j < length ids" "P (Suc j) m"
    then show "\<exists>m'. k (fst (ids ! j)) (snd (ids ! j)) m = Some m' \<and> P (Suc (Suc j)) m'"
      using Cons.prems(2) [of "Suc j" m] by simp
  qed
  then show ?case using m1 by (simp add: bt)
qed

lemma length_thread_ids: "length (thread_ids blocks threads) = unat blocks * unat threads"
  by (simp add: thread_ids_def)

lemma thread_ids_nth:
  assumes "j < unat blocks * unat threads"
  shows "thread_ids blocks threads ! j
           = (word_of_nat (j div unat threads), word_of_nat (j mod unat threads))"
proof -
  have t: "0 < unat threads" using assms by (cases "unat threads = 0") simp_all
  have d: "j div unat threads < unat blocks"
    using assms t by (simp add: less_mult_imp_div_less)
  show ?thesis using assms d t by (simp add: thread_ids_def product_nth)
qed

lemma blocks_bounds:
  fixes N :: nat
  assumes "N < 2 ^ 30"
  shows "(N + 255) div 256 \<le> 2 ^ 22" and "N \<le> 256 * ((N + 255) div 256)"
proof -
  have "N + 255 \<le> 2 ^ 30 + 254" using assms by simp
  then have "(N + 255) div 256 \<le> (2 ^ 30 + 254) div 256" by (rule div_le_mono)
  then show "(N + 255) div 256 \<le> 2 ^ 22" by simp
  have m: "(N + 255) mod 256 < 256" by simp
  have "N + 255 = 256 * ((N + 255) div 256) + (N + 255) mod 256" by simp
  with m show "N \<le> 256 * ((N + 255) div 256)" by linarith
qed

lemma unat_of_nat32: "n < 2 ^ 32 \<Longrightarrow> unat (word_of_nat n :: 32 word) = n"
  by (simp add: unat_of_nat)

lemma thread_index:
  "(word_of_nat (j div 256) :: u32) * 256 + word_of_nat (j mod 256) = word_of_nat j"
proof -
  have "j = (j div 256) * 256 + j mod 256" by simp
  then have "(word_of_nat j :: u32) = word_of_nat ((j div 256) * 256 + j mod 256)" by simp
  then show ?thesis by (simp only: of_nat_add of_nat_mult of_nat_numeral)
qed

lemma launch_cudaRun_spec:
  fixes w h :: i32 and mem :: devmem
  assumes size: "unat h * unat w < 2 ^ 30"
    and cur: "current < length mem" and nxt: "next < length mem" and ne: "current \<noteq> next"
    and len: "length (mem ! current) = unat h * unat w"
    and len': "length (mem ! next) = unat h * unat w"
    and bits: "\<forall>c \<in> set (mem ! current). c \<le> 1"
  shows "\<exists>nb. launch_cudaRun (word_of_nat ((unat h * unat w + 256 - 1) div 256)) 256
                 (word_of_nat (unat h * unat w)) w h current next mem
               = Some (mem[next := nb]) \<and>
              map unat nb = step_spec (unat h) (unat w) (map unat (mem ! current))"
proof -
  let ?W = "unat w" and ?H = "unat h"
  define N where "N = ?H * ?W"
  define B where "B = (N + 255) div 256"
  define G where "G = step_spec ?H ?W (map unat (mem ! current))"
  define n :: i32 where "n = word_of_nat N"
  define blocks :: u32 where "blocks = word_of_nat B"
  have N30: "N < 2 ^ 30" using size by (simp add: N_def)
  have B22: "B \<le> 2 ^ 22" and cover: "N \<le> 256 * B"
    unfolding B_def using blocks_bounds [OF N30] by simp_all
  have un: "unat n = N" unfolding n_def using N30 by (simp add: unat_of_nat32)
  have ub: "unat blocks = B" unfolding blocks_def using B22 by (simp add: unat_of_nat32)
  have lG: "length G = N" by (simp add: G_def N_def length_step_spec)
  have stride: "unat (256 * blocks) = 256 * B"
    using B22 by (simp add: unat_word_ariths ub)
  define P where "P j m \<longleftrightarrow> (\<exists>nb. m = mem[next := nb] \<and> written G (min j N) nb)"
    for j :: nat and m :: devmem
  have P0: "P 0 mem"
    unfolding P_def using nxt by (intro exI [of _ "mem ! next"]) (simp add: written_def lG len' N_def)
  have step: "\<exists>m'. cudaRun blocks 256 (fst (thread_ids blocks 256 ! j))
                     (snd (thread_ids blocks 256 ! j)) n w h current next m = Some m'
                \<and> P (Suc j) m'"
    if j: "j < length (thread_ids blocks 256)" and Pj: "P j m" for j m
  proof -
    have jB: "j < B * 256" using j by (simp add: length_thread_ids ub)
    then have j30: "j < 2 ^ 30" using B22 by simp
    from Pj obtain nb where m: "m = mem[next := nb]" and wr: "written G (min j N) nb"
      by (auto simp: P_def)
    have id: "thread_ids blocks 256 ! j = (word_of_nat (j div 256), word_of_nat (j mod 256))"
      using jB by (simp add: thread_ids_nth ub)
    have run: "cudaRun blocks 256 (fst (thread_ids blocks 256 ! j))
                     (snd (thread_ids blocks 256 ! j)) n w h current next m
          = thread_loop n w h current next (256 * blocks) (word_of_nat j) m"
      by (simp add: cudaRun_def id Let_def thread_index)
    have uj: "unat (word_of_nat j :: i32) = j" using j30 by (simp add: unat_of_nat32)
    have "thread_loop n w h current next (256 * blocks) (word_of_nat j) m
            = (if unat (word_of_nat j :: i32) < unat n
               then cell_cuda w h current next (word_of_nat j) m else Some m)"
    proof (rule thread_loop_one)
      show "unat n < 2 ^ 31" using N30 by (simp add: un)
      show "unat (word_of_nat j :: i32) < 2 ^ 31" using j30 by (simp add: uj)
      show "0 < unat (256 * blocks)" using jB by (simp add: stride)
      show "unat n \<le> unat (256 * blocks)" using cover by (simp add: stride un)
      show "unat (word_of_nat j :: i32) + unat (256 * blocks) < 2 ^ 31"
        using j30 B22 by (simp add: uj stride)
    qed
    then have tl: "thread_loop n w h current next (256 * blocks) (word_of_nat j) m
            = (if j < N then cell_cuda w h current next (word_of_nat j) m else Some m)"
      by (simp add: uj un)
    show ?thesis
    proof (cases "j < N")
      case True
      have mc: "m ! current = mem ! current" and mn: "m ! next = nb"
        using ne nxt by (simp_all add: m)
      have lnb: "length nb = N" using wr by (simp add: written_def lG)
      have lc: "length (m ! current) = ?H * ?W" using len by (simp add: mc)
      have ln: "length (m ! next) = ?H * ?W" using lnb by (simp add: mn N_def)
      have bc: "\<forall>c \<in> set (m ! current). c \<le> 1" using bits by (simp add: mc)
      have curm: "current < length m" "next < length m" using cur nxt by (simp_all add: m)
      have Kj: "unat (word_of_nat j :: i32) < ?H * ?W" using True by (simp add: uj N_def)
      from cell_cuda_spec [OF Kj size curm lc ln bc]
      obtain v where c0: "cell_cuda w h current next (word_of_nat j) m
                           = Some (m[next := (m ! next)[unat (word_of_nat j :: i32) := v]])"
        and v0: "unat v = step_spec ?H ?W (map unat (m ! current)) ! unat (word_of_nat j :: i32)"
        by blast
      have c: "cell_cuda w h current next (word_of_nat j) m = Some (mem[next := nb[j := v]])"
        using c0 by (simp add: uj mn) (simp add: m)
      have v: "unat v = G ! j" using v0 by (simp add: uj mc G_def)
      have "written G (Suc j) (nb[j := v])"
        using wr True v by (intro written_update) (simp_all add: lG min_def)
      then have "P (Suc j) (mem[next := nb[j := v]])"
        using True by (auto simp: P_def min_def)
      then show ?thesis using c True by (simp add: run tl)
    next
      case False
      then have "min (Suc j) N = min j N" by simp
      then have "P (Suc j) m" using Pj by (simp add: P_def)
      then show ?thesis using False by (simp add: run tl)
    qed
  qed
  from launch_threads_total [of P mem "thread_ids blocks 256"
         "\<lambda>b t. cudaRun blocks 256 b t n w h current next", OF P0 step]
  obtain r where r: "launch_cudaRun blocks 256 n w h current next mem = Some r"
    and Pr: "P (length (thread_ids blocks 256)) r"
    by (auto simp: launch_cudaRun_def)
  have "min (length (thread_ids blocks 256)) N = N"
    using cover by (simp add: length_thread_ids ub mult.commute)
  with Pr obtain nb where "r = mem[next := nb]" "written G (length G) nb"
    by (auto simp: P_def lG)
  then have res: "r = mem[next := nb] \<and> map unat nb = G" by (simp add: written_all)
  have e: "?H * ?W + 256 - 1 = N + 255" by (simp add: N_def)
  have eqB: "word_of_nat ((?H * ?W + 256 - 1) div 256) = blocks"
    unfolding e blocks_def B_def by (rule refl)
  have eqn: "word_of_nat (?H * ?W) = n" by (simp add: n_def N_def)
  show ?thesis unfolding eqB eqn G_def [symmetric] using r res by blast
qed

section \<open>The host of the CUDA program against the specification\<close>

lemma Life_cuda_ok:
  assumes ok: "\<forall>k. api_ok env k" and size: "unat h * unat w < 2 ^ 30"
  shows "\<exists>s. Life_cuda env rnd h w = Inr s \<and> cuda_inv s \<and> height s = h \<and> width s = w \<and>
             cells s = init_random rnd (replicate (unat h * unat w) 0)"
proof -
  have "unat h * unat w < 2 ^ 32" using size by simp
  then have m: "unat (h * w) = unat h * unat w" by (rule u32_mult)
  show ?thesis
    using ok
    by (simp add: Life_cuda_def cudaMalloc_def checkError_def then_do_def copy_to_device_def
          Let_def m cuda_inv_def init_random_def)
qed

lemma turn_cuda_spec:
  assumes ok: "\<forall>k. api_ok env k" and inv: "cuda_inv s"
    and size: "unat (height s) * unat (width s) < 2 ^ 30"
    and b: "bits (map unat (cells s))"
  shows "\<exists>s'. turn_cuda env (word_of_nat ((length (cells s) + 256 - 1) div 256)) 256 s = Inr s' \<and>
              cuda_inv s' \<and> height s' = height s \<and> width s' = width s \<and>
              map unat (cells s')
                = step_spec (unat (height s)) (unat (width s)) (map unat (cells s))"
proof -
  let ?W = "unat (width s)" and ?H = "unat (height s)"
  let ?c = "cellsDevice s" and ?n = "nextcellsDevice s"
  from inv have c: "?c < length (device s)" and n: "?n < length (device s)" and ne: "?c \<noteq> ?n"
    and lc: "length (device s ! ?c) = ?H * ?W" and ln: "length (device s ! ?n) = ?H * ?W"
    and cs: "cells s = device s ! ?c"
    by (simp_all add: cuda_inv_def)
  have bc: "\<forall>x \<in> set (device s ! ?c). x \<le> 1" using b by (simp add: bits_unat cs)
  from launch_cudaRun_spec [OF size c n ne lc ln bc]
  obtain nb where l: "launch_cudaRun (word_of_nat ((?H * ?W + 256 - 1) div 256)) 256
                 (word_of_nat (?H * ?W)) (width s) (height s) ?c ?n (device s)
               = Some ((device s)[?n := nb])"
    and g: "map unat nb = step_spec ?H ?W (map unat (device s ! ?c))"
    by blast
  have lnb: "length nb = ?H * ?W" using arg_cong [OF g, of length] by (simp add: length_step_spec)
  have lcs: "length (cells s) = ?H * ?W" by (simp add: cs lc)
  show ?thesis
    using ok l g c n ne lnb lc
    by (simp add: turn_cuda_def lcs then_do_def checkError_def copy_to_host_def Let_def
          cuda_inv_def cs)
qed

lemma run_cuda_spec:
  assumes ok: "\<forall>k. api_ok env k" and inv: "cuda_inv s"
    and size: "unat (height s) * unat (width s) < 2 ^ 30"
    and b: "bits (map unat (cells s))"
  shows "\<exists>s'. run_cuda env s numTurns = Inr s' \<and> cuda_inv s' \<and>
              height s' = height s \<and> width s' = width s \<and>
              map unat (cells s')
                = (step_spec (unat (height s)) (unat (width s)) ^^ unat numTurns)
                    (map unat (cells s))"
proof -
  let ?W = "unat (width s)" and ?H = "unat (height s)"
  define blocks :: u32 where "blocks = word_of_nat ((length (cells s) + 256 - 1) div 256)"
  have lcs: "length (cells s) = ?H * ?W" using inv by (simp add: cuda_inv_def)
  define P where "P t st \<longleftrightarrow> cuda_inv st \<and> height st = height s \<and> width st = width s \<and>
      map unat (cells st) = (step_spec ?H ?W ^^ unat t) (map unat (cells s))"
    for t :: u32 and st :: life_cuda
  have P0: "P 0 s" using inv by (simp add: P_def)
  have step: "\<exists>b'. turn_cuda env blocks 256 st = Inr b' \<and> P (j + 1) b'"
    if j: "j < numTurns" and Pj: "P j st" for j st
  proof -
    from Pj have i: "cuda_inv st" and fr: "height st = height s" "width st = width s"
      and g: "map unat (cells st) = (step_spec ?H ?W ^^ unat j) (map unat (cells s))"
      by (simp_all add: P_def)
    from bits_funpow [OF b, of ?H ?W "unat j"] lcs g
    have bj: "bits (map unat (cells st))" by simp
    have lst: "length (cells st) = length (cells s)"
      using i lcs by (simp add: cuda_inv_def fr)
    from turn_cuda_spec [OF ok i _ bj] size
    obtain b' where "turn_cuda env blocks 256 st = Inr b'" "cuda_inv b'"
      "height b' = height s" "width b' = width s"
      "map unat (cells b') = step_spec ?H ?W (map unat (cells st))"
      by (auto simp: fr lst blocks_def)
    then show ?thesis using g j by (auto simp: P_def u32_succ)
  qed
  from for_u32_err_total [of 0 numTurns P s "\<lambda>t. turn_cuda env blocks 256", OF _ P0] step
  obtain s' where "run_cuda env s numTurns = Inr s'" "P numTurns s'"
    by (auto simp: run_cuda_def blocks_def Let_def)
  then show ?thesis by (auto simp: P_def)
qed

section \<open>What a step leaves unchanged\<close>

lemma cell_openmp_frame:
  assumes "cell_openmp s x y = Some s'"
  shows "cells s' = cells s" and "height s' = height s" and "width s' = width s"
    and "length (nextcells s') = length (nextcells s)"
  using assms by (auto elim!: cell_openmp_Some)


lemma cell_cuda_frame:
  assumes "cell_cuda w h current next i mem = Some mem'"
  shows "length mem' = length mem" and "\<And>p. p \<noteq> next \<Longrightarrow> mem' ! p = mem ! p"
    and "length (mem' ! next) = length (mem ! next)"
  using assms by (auto elim!: cell_cuda_Some)

lemma thread_loop_frame:
  assumes "thread_loop n w h current next stride i mem = Some mem'"
  shows "length mem' = length mem \<and> (\<forall>p. p \<noteq> next \<longrightarrow> mem' ! p = mem ! p) \<and>
         length (mem' ! next) = length (mem ! next)"
  using assms
proof (induction n w h current "next" stride i mem rule: thread_loop.induct)
  case (1 n w h current nxt stride i mem)
  show ?case
  proof (cases "i <s n")
    case True
    from "1.prems" True obtain m2 where c2: "cell_cuda w h current nxt i mem = Some m2"
      and guard: "0 <s stride \<and> sint i + sint stride < 2 ^ 31"
      and rest: "thread_loop n w h current nxt stride (i + stride) m2 = Some mem'"
      by (subst (asm) thread_loop.simps) (auto split: bind_splits if_splits)
    from "1.IH" [OF True c2 guard rest] cell_cuda_frame [OF c2]
    show ?thesis by simp
  next
    case False
    with "1.prems" show ?thesis by (simp add: thread_loop_stop)
  qed
qed

lemma launch_cudaRun_frame:
  assumes "launch_cudaRun blocks threads n w h current next mem = Some mem'"
  shows "length mem' = length mem \<and> (\<forall>p. p \<noteq> next \<longrightarrow> mem' ! p = mem ! p) \<and>
         length (mem' ! next) = length (mem ! next)"
proof -
  define F where "F m \<longleftrightarrow> length m = length mem \<and> (\<forall>p. p \<noteq> next \<longrightarrow> m ! p = mem ! p) \<and>
         length (m ! next) = length (mem ! next)" for m :: devmem
  have "F mem'"
    using assms [unfolded launch_cudaRun_def]
  proof (rule launch_threads_rule [where P = "\<lambda>_. F"])
    show "F mem" by (simp add: F_def)
  next
    fix j m m'
    assume "F m" and "cudaRun blocks threads (fst (thread_ids blocks threads ! j))
        (snd (thread_ids blocks threads ! j)) n w h current next m = Some m'"
    then show "F m'" using thread_loop_frame [of n w h current "next" _ _ m m']
      by (auto simp: F_def cudaRun_def Let_def)
  qed
  then show ?thesis by (simp add: F_def)
qed

section \<open>Grids that are not square\<close>

lemmas openmp_eval = run_openmp_def turn_openmp_def step_openmp_def for_u32_unfold Life_def
  init_random_def cell_openmp_def count_neighbours_def vec_read_def vec_write_def
  index_openmp_def alive_def dead_def upt_rec swap_cells_def mt_draws_def

lemma funpow_two: "(f ^^ 2) x = f (f x)"
  by (simp add: numeral_2_eq_2)

lemmas spec_eval = step_spec_def neighbor_count_def offsets_def rule_spec_def upt_rec

lemma cell_openmp_oob:
  assumes "length (nextcells s) \<le> unat (index_openmp (height s) x y)"
  shows "cell_openmp s x y = None"
  using assms
  by (auto simp: cell_openmp_def vec_write_def vec_read_def Let_def split: bind_splits)

lemma step_openmp_oob:
  assumes x: "x < width s" and y: "y < height s"
    and oob: "length (nextcells s) \<le> unat (index_openmp (height s) x y)"
  shows "step_openmp s = None"
proof (rule ccontr)
  assume "step_openmp s \<noteq> None"
  then obtain r where r: "step_openmp s = Some r" by auto
  define F where "F t \<longleftrightarrow> height t = height s \<and> length (nextcells t) = length (nextcells s)"
    for t :: "u8 life"
  have row: "j \<noteq> y \<and> F b'"
    if l: "for_u32 0 (width s) (\<lambda>x s'. cell_openmp s' x j) b = Some b'" and Fb: "F b"
    for j b b'
  proof -
    have "(j = y \<longrightarrow> width s \<le> x) \<and> F b'"
      using l
    proof (rule for_u32_rule [where P = "\<lambda>i t. (j = y \<longrightarrow> i \<le> x) \<and> F t"])
      show "0 \<le> width s" by simp
      show "(j = y \<longrightarrow> 0 \<le> x) \<and> F b" using Fb by simp
    next
      fix i t t'
      assume i: "i < width s" and P: "(j = y \<longrightarrow> i \<le> x) \<and> F t"
        and c: "cell_openmp t i j = Some t'"
      have "\<not> (j = y \<and> i = x)"
        using c cell_openmp_oob [of t x y] P oob by (auto simp: F_def)
      moreover have "i \<le> x \<Longrightarrow> i \<noteq> x \<Longrightarrow> i + 1 \<le> x" by unat_arith
      ultimately show "(j = y \<longrightarrow> i + 1 \<le> x) \<and> F t'"
        using P cell_openmp_frame [OF c] by (auto simp: F_def)
    qed
    then show ?thesis using x by auto
  qed
  have "height s \<le> y \<and> F r"
    using r [unfolded step_openmp_def]
  proof (rule for_u32_rule [where P = "\<lambda>j t. j \<le> y \<and> F t"])
    show "0 \<le> height s" by simp
    show "0 \<le> y \<and> F s" by (simp add: F_def)
  next
    fix j b b'
    assume "j < height s" and P: "j \<le> y \<and> F b"
      and l: "for_u32 0 (width s) (\<lambda>x s'. cell_openmp s' x j) b = Some b'"
    from row [OF l] P have "j \<noteq> y" "F b'" by simp_all
    moreover have "j \<le> y \<Longrightarrow> j \<noteq> y \<Longrightarrow> j + 1 \<le> y" by unat_arith
    ultimately show "j + 1 \<le> y \<and> F b'" using P by simp
  qed
  then show False using y by auto
qed

lemma output_file_grid: "output_file s = output_grid (height s) (width s) (map unat (cells s))"
proof -
  have "\<And>k out. vec_read (map unat (cells s)) k \<bind> (\<lambda>c. Some (out @ show_nat c))
          = vec_read (cells s) k \<bind> (\<lambda>c. Some (out @ show_nat (unat c)))"
    by (simp add: vec_read_def)
  then show ?thesis by (simp add: output_file_def output_grid_def)
qed

lemma show_bit: "show_nat 0 = ''0''" "show_nat 1 = ''1''" "show_nat (Suc 0) = ''1''"
  by (simp_all add: show_nat.simps)

lemmas output_eval = output_grid_def for_u32_unfold vec_read_def show_bit endl_def

text \<open>
  C3 (the code departs from the claim). On the 2-by-1 grid the OpenMP step writes
  \<open>nextcells[2]\<close> for the cell \<open>(0, 1)\<close>, past the end of a buffer of two cells, whatever
  the initial grid: the step has no defined result.
\<close>

theorem openmp_step_out_of_bounds:
  "unat (index_openmp 2 0 1) = 2 \<and> length (nextcells (Life rnd 2 1)) = 2 \<and>
   step_openmp (Life rnd 2 1) = None"
proof -
  have "step_openmp (Life rnd 2 1) = None"
    by (rule step_openmp_oob [where x = 0 and y = 1]) (simp_all add: Life_def index_openmp_def)
  then show ?thesis by (simp add: Life_def index_openmp_def)
qed

text \<open>
  C2 (the code departs from the claim). On the 3-by-5 grid the OpenMP loop body for the
  cell \<open>(3, 1)\<close>, whose row-major index is \<open>1 * 5 + 3 = 8\<close>, writes its result to index
  \<open>1 * 3 + 3 = 6\<close> of \<open>nextcells\<close>; the kernel body for cell 8 writes index 8.
\<close>

theorem openmp_index_not_row_major:
  "unat (index_openmp 3 3 1) = 6 \<and>
   cell_openmp (Life mt_draws 3 5) 3 1
     = Some ((Life mt_draws 3 5)\<lparr>nextcells := (replicate 15 0)[6 := 1]\<rparr>) \<and>
   cell_cuda 5 3 0 1 8 [map ucast (cells (Life mt_draws 3 5)), replicate 15 0]
     = Some [map ucast (cells (Life mt_draws 3 5)), (replicate 15 0)[8 := 1]]"
  by (simp add: openmp_eval cell_cuda_def neighbours_cuda_def dev_read_def dev_write_def
        int_mod_def int_div_def Let_def)

lemma mt_draws_bits: "mt_draws k \<le> 1"
  by (simp add: mt_draws_def)

lemma init_random_bits:
  assumes "\<forall>k. rnd k \<le> 1"
  shows "bits (map unat (init_random rnd cs :: u8 list))"
    and "bits (map unat (init_random rnd cs' :: i32 list))"
proof -
  have "unat (ucast (rnd k) :: u8) \<le> 1" for k
  proof -
    have "unat (rnd k) \<le> 1" using assms by (simp add: word_le_nat_alt)
    then show ?thesis by (simp add: unsigned_ucast_eq take_bit_nat_eq_self)
  qed
  then show "bits (map unat (init_random rnd cs :: u8 list))"
    by (auto simp: bits_def init_random_def)
  have "unat (rnd k) \<le> 1" for k using assms by (simp add: word_le_nat_alt)
  then show "bits (map unat (init_random rnd cs' :: i32 list))"
    by (auto simp: bits_def init_random_def)
qed

lemma init_random_same:
  assumes "\<forall>k. rnd k \<le> 1"
  shows "map unat (init_random rnd (replicate n 0) :: u8 list)
           = map unat (init_random rnd (replicate n 0) :: i32 list)"
proof -
  have "unat (ucast (rnd k) :: u8) = unat (rnd k)" for k
  proof -
    have "unat (rnd k) \<le> 1" using assms by (simp add: word_le_nat_alt)
    then show ?thesis by (simp add: unsigned_ucast_eq take_bit_nat_eq_self)
  qed
  then show ?thesis by (simp add: init_random_def)
qed

text \<open>The CUDA program from the constructor to the end of \<open>run\<close>, on a grid of fewer than
  \<open>2 ^ 30\<close> cells and a device whose calls all succeed: the host buffer holds the grid
  that the specification's step gives after \<open>numTurns\<close> generations.\<close>

lemma cuda_program_spec:
  assumes ok: "\<forall>k. api_ok env k" and size: "unat h * unat w < 2 ^ 30"
    and draws: "\<forall>k. rnd k \<le> 1"
  shows "\<exists>s. then_do (Life_cuda env rnd h w) (\<lambda>s. run_cuda env s numTurns) = Inr s \<and>
             height s = h \<and> width s = w \<and> cuda_inv s \<and>
             map unat (cells s)
               = (step_spec (unat h) (unat w) ^^ unat numTurns)
                   (map unat (init_random rnd (replicate (unat h * unat w) 0) :: i32 list))"
proof -
  from Life_cuda_ok [OF ok size, of rnd]
  obtain s0 where s0: "Life_cuda env rnd h w = Inr s0" and inv: "cuda_inv s0"
    and hw: "height s0 = h" "width s0 = w"
    and c0: "cells s0 = init_random rnd (replicate (unat h * unat w) 0)"
    by blast
  have b: "bits (map unat (cells s0))" unfolding c0 using draws by (rule init_random_bits(2))
  from run_cuda_spec [OF ok inv _ b, of numTurns] size
  obtain s where "run_cuda env s0 numTurns = Inr s" "cuda_inv s" "height s = h" "width s = w"
    "map unat (cells s) = (step_spec (unat h) (unat w) ^^ unat numTurns) (map unat (cells s0))"
    by (auto simp: hw)
  then show ?thesis by (simp add: s0 then_do_def c0)
qed


section \<open>Cells are 0 or 1\<close>

lemma all_bits_le: "all_bits cs \<longleftrightarrow> (\<forall>c \<in> set cs. c \<le> 1)"
proof -
  have "(c = 0 \<or> c = 1) \<longleftrightarrow> c \<le> 1" for c :: "'a word"
    by (metis word_le_0_iff word_less_1 order_le_less order.refl)
  then show ?thesis by (simp add: all_bits_def)
qed



lemma rule_cuda_bit: "c = 0 \<or> c = 1 \<or> n \<noteq> 2 \<Longrightarrow> rule_cuda n c = 0 \<or> rule_cuda n c = 1"
  by (auto simp: rule_cuda_def)




lemma Life_bits:
  assumes "\<forall>k. rnd k = 0 \<or> rnd k = 1"
  shows "all_bits (cells (Life rnd h w))" and "all_bits (nextcells (Life rnd h w))"
proof -
  have "ucast (rnd k) = (0 :: u8) \<or> ucast (rnd k) = (1 :: u8)" for k
    using assms [rule_format, of k] by auto
  then show "all_bits (cells (Life rnd h w))"
    by (auto simp: Life_def init_random_def all_bits_def)
  show "all_bits (nextcells (Life rnd h w))"
    by (simp add: Life_def all_bits_def)
qed







lemma draws_le: "(\<forall>k. rnd k = 0 \<or> rnd k = 1) \<Longrightarrow> \<forall>k. rnd k \<le> (1 :: i32)"
  by (metis order.refl word_coorder.extremum)



lemma mt_draws_bit: "\<forall>k. mt_draws k = 0 \<or> mt_draws k = 1"
  by (simp add: mt_draws_def)

lemma all_ok_ok: "\<forall>k. api_ok all_ok k"
  by (simp add: all_ok_def)

section \<open>The copy from the device to the host\<close>





section \<open>Square grids\<close>

lemma output_file_total:
  assumes len: "length (cells s) = unat (height s) * unat (width s)"
    and size: "unat (height s) * unat (width s) < 2 ^ 32"
  shows "\<exists>out. output_file s = Some out"
proof -
  let ?W = "unat (width s)" and ?H = "unat (height s)"
  have row: "\<exists>b'. for_u32 0 (width s) (\<lambda>x out.
         vec_read (cells s) (unat (y * width s + x)) \<bind> (\<lambda>c. Some (out @ show_nat (unat c)))) b
       \<bind> (\<lambda>out. Some (out @ endl)) = Some b' \<and> True"
    if y: "y < height s" for y b
  proof -
    have Y: "unat y < ?H" using y by (simp add: word_less_nat_alt)
    have "\<exists>r. for_u32 0 (width s) (\<lambda>x out.
         vec_read (cells s) (unat (y * width s + x)) \<bind> (\<lambda>c. Some (out @ show_nat (unat c)))) b
         = Some r \<and> True"
    proof (rule for_u32_total [where P = "\<lambda>_ _. True"])
      show "0 \<le> width s" by simp
      show True by simp
    next
      fix j acc assume j: "j < width s"
      then have J: "unat j < ?W" by (simp add: word_less_nat_alt)
      have "unat (j + y * width s) = unat j + unat y * ?W"
        using J Y size by (rule u32_index(1))
      moreover have "unat j + unat y * ?W < ?H * ?W" using J Y by (rule torus_lt)
      ultimately have "unat (y * width s + j) < length (cells s)"
        by (simp add: len add.commute)
      then show "\<exists>b'. vec_read (cells s) (unat (y * width s + j))
                    \<bind> (\<lambda>c. Some (acc @ show_nat (unat c))) = Some b' \<and> True"
        by (simp add: vec_read_def)
    qed
    then show ?thesis by auto
  qed
  have "\<exists>r. output_file s = Some r \<and> True"
    unfolding output_file_def
  proof (rule for_u32_total [where P = "\<lambda>_ _. True"])
    show "0 \<le> height s" by simp
    show True by simp
  next
    fix j b assume "j < height s"
    then show "\<exists>b'. for_u32 0 (width s) (\<lambda>x out.
         vec_read (cells s) (unat (j * width s + x)) \<bind> (\<lambda>c. Some (out @ show_nat (unat c)))) b
       \<bind> (\<lambda>out. Some (out @ endl)) = Some b' \<and> True"
      by (rule row)
  qed
  then show ?thesis by simp
qed

text \<open>The OpenMP program from the constructor to the end of \<open>run\<close>, on a square grid of
  fewer than \<open>2 ^ 30\<close> cells.\<close>

lemma openmp_program_spec:
  assumes sq: "h = w" and size: "unat h * unat w < 2 ^ 30" and draws: "\<forall>k. rnd k \<le> 1"
  shows "\<exists>s. run_openmp (Life rnd h w) numTurns = Some s \<and> height s = h \<and> width s = w \<and>
             length (cells s) = unat h * unat w \<and>
             map unat (cells s)
               = (step_spec (unat h) (unat w) ^^ unat numTurns)
                   (map unat (init_random rnd (replicate (unat h * unat w) 0) :: u8 list))"
proof -
  let ?s = "Life rnd h w"
  have "unat h * unat w < 2 ^ 32" using size by simp
  then have m: "unat (h * w) = unat h * unat w" by (rule u32_mult)
  have hw: "height ?s = h" "width ?s = w"
    and c: "cells ?s = init_random rnd (replicate (unat h * unat w) 0)"
    and l: "length (cells ?s) = unat h * unat w" "length (nextcells ?s) = unat h * unat w"
    by (simp_all add: Life_def m init_random_def)
  have b: "bits (map unat (cells ?s))" unfolding c using draws by (rule init_random_bits(1))
  have sqs: "height ?s = width ?s" unfolding hw by (rule sq)
  have sz: "unat (height ?s) * unat (width ?s) < 2 ^ 30" unfolding hw by (rule size)
  have l1: "length (cells ?s) = unat (height ?s) * unat (width ?s)" by (simp only: hw l)
  have l2: "length (nextcells ?s) = unat (height ?s) * unat (width ?s)" by (simp only: hw l)
  from run_openmp_square [OF sqs sz l1 l2 b, of numTurns]
  obtain s' where r: "run_openmp ?s numTurns = Some s'"
    and hw0: "height s' = height ?s" "width s' = width ?s"
    and g0: "map unat (cells s')
         = (step_spec (unat (height ?s)) (unat (width ?s)) ^^ unat numTurns) (map unat (cells ?s))"
    by (elim exE conjE)
  have hw': "height s' = h" "width s' = w" using hw0 by (simp_all only: hw)
  have g: "map unat (cells s')
         = (step_spec (unat h) (unat w) ^^ unat numTurns) (map unat (cells ?s))"
    using g0 by (simp only: hw)
  have "length (map unat (cells s')) = unat h * unat w"
    unfolding g using bits_funpow [OF b, of "unat h" "unat w" "unat numTurns"] l by simp
  then have "length (cells s') = unat h * unat w" by (simp only: length_map)
  then show ?thesis using r hw' g by (simp add: c)
qed

text \<open>
  C10 (corrected). On a square grid of fewer than \<open>2 ^ 30\<close> cells, all 0 or 1: from
  equal current buffers, the OpenMP step and the launch of the kernel give equal next
  buffers; and from the constructor on, with every CUDA call succeeding, the two
  programs end with equal grids and write the same text to their files.
\<close>

theorem square_grids_agree:
  "(height s = width s \<and> unat (height s) * unat (width s) < 2 ^ 30 \<and>
    length (cells s) = unat (height s) * unat (width s) \<and>
    length (nextcells s) = unat (height s) * unat (width s) \<and> all_bits (cells s) \<and>
    current < length mem \<and> next < length mem \<and> current \<noteq> next \<and>
    length (mem ! next) = unat (height s) * unat (width s) \<and>
    map unat (mem ! current) = map unat (cells s)
    \<longrightarrow> (\<exists>s' nb. step_openmp s = Some s' \<and>
          launch_cudaRun (word_of_nat ((unat (height s) * unat (width s) + 256 - 1) div 256)) 256
              (word_of_nat (unat (height s) * unat (width s))) (width s) (height s)
              current next mem
            = Some (mem[next := nb]) \<and>
          map unat (nextcells s') = map unat nb)) \<and>
   (h = w \<and> unat h * unat w < 2 ^ 30 \<and> (\<forall>k. rnd k = 0 \<or> rnd k = 1) \<and> (\<forall>k. api_ok env k)
    \<longrightarrow> (\<exists>s1 s2. run_openmp (Life rnd h w) numTurns = Some s1 \<and>
          then_do (Life_cuda env rnd h w) (\<lambda>s. run_cuda env s numTurns) = Inr s2 \<and>
          map unat (cells s1) = map unat (cells s2) \<and> output_file s1 = output_file s2))"
proof (intro conjI impI)
  assume a: "height s = width s \<and> unat (height s) * unat (width s) < 2 ^ 30 \<and>
    length (cells s) = unat (height s) * unat (width s) \<and>
    length (nextcells s) = unat (height s) * unat (width s) \<and> all_bits (cells s) \<and>
    current < length mem \<and> next < length mem \<and> current \<noteq> next \<and>
    length (mem ! next) = unat (height s) * unat (width s) \<and>
    map unat (mem ! current) = map unat (cells s)"
  then have "all_bits (cells s)" by blast
  then have b: "\<forall>c \<in> set (cells s). c \<le> 1" by (simp add: all_bits_le)
  from a have eq: "map unat (mem ! current) = map unat (cells s)" by blast
  from a have sq: "height s = width s" and sz: "unat (height s) * unat (width s) < 2 ^ 30"
    and l1: "length (cells s) = unat (height s) * unat (width s)"
    and l2: "length (nextcells s) = unat (height s) * unat (width s)"
    and cur: "current < length mem" and nxt: "next < length mem" and ne: "current \<noteq> next"
    and ln: "length (mem ! next) = unat (height s) * unat (width s)"
    by blast+
  from step_openmp_square [OF sq sz l1 l2 b]
  obtain s' where s': "step_openmp s = Some s'"
    and g: "map unat (nextcells s')
              = step_spec (unat (height s)) (unat (width s)) (map unat (cells s))"
    by (elim exE conjE)
  have "length (mem ! current) = length (cells s)"
    using eq by (metis length_map)
  with l1 have lc: "length (mem ! current) = unat (height s) * unat (width s)" by simp
  have bc: "\<forall>c \<in> set (mem ! current). c \<le> 1"
    using b eq by (metis bits_unat)
  from launch_cudaRun_spec [OF sz cur nxt ne lc ln bc]
  obtain nb where "launch_cudaRun
        (word_of_nat ((unat (height s) * unat (width s) + 256 - 1) div 256)) 256
        (word_of_nat (unat (height s) * unat (width s))) (width s) (height s) current next mem
      = Some (mem[next := nb])"
    and "map unat nb = step_spec (unat (height s)) (unat (width s)) (map unat (mem ! current))"
    by (elim exE conjE)
  with s' g eq show "\<exists>s' nb. step_openmp s = Some s' \<and>
          launch_cudaRun (word_of_nat ((unat (height s) * unat (width s) + 256 - 1) div 256)) 256
              (word_of_nat (unat (height s) * unat (width s))) (width s) (height s)
              current next mem
            = Some (mem[next := nb]) \<and>
          map unat (nextcells s') = map unat nb"
    by (intro exI [of _ s'] exI [of _ nb]) simp
next
  assume a: "h = w \<and> unat h * unat w < 2 ^ 30 \<and> (\<forall>k. rnd k = 0 \<or> rnd k = 1) \<and>
    (\<forall>k. api_ok env k)"
  then have d: "\<forall>k. rnd k \<le> 1" using draws_le by blast
  from openmp_program_spec [of h w rnd numTurns] a d
  obtain s1 where s1: "run_openmp (Life rnd h w) numTurns = Some s1"
    and hw1: "height s1 = h" "width s1 = w"
    and g1: "map unat (cells s1)
               = (step_spec (unat h) (unat w) ^^ unat numTurns)
                   (map unat (init_random rnd (replicate (unat h * unat w) 0) :: u8 list))"
    by auto
  from cuda_program_spec [of env h w rnd numTurns] a d
  obtain s2 where s2: "then_do (Life_cuda env rnd h w) (\<lambda>s. run_cuda env s numTurns) = Inr s2"
    and hw2: "height s2 = h" "width s2 = w"
    and g2: "map unat (cells s2)
               = (step_spec (unat h) (unat w) ^^ unat numTurns)
                   (map unat (init_random rnd (replicate (unat h * unat w) 0) :: i32 list))"
    by auto
  have g: "map unat (cells s1) = map unat (cells s2)"
    unfolding g1 g2 using init_random_same [OF d] by simp
  then have "output_file s1 = output_file s2"
    by (simp add: output_file_grid hw1 hw2)
  with s1 s2 g show "\<exists>s1 s2. run_openmp (Life rnd h w) numTurns = Some s1 \<and>
          then_do (Life_cuda env rnd h w) (\<lambda>s. run_cuda env s numTurns) = Inr s2 \<and>
          map unat (cells s1) = map unat (cells s2) \<and> output_file s1 = output_file s2"
    by (intro exI [of _ s1] exI [of _ s2]) simp
qed

theorem square_grids_agree_witness:
  "(\<exists>s' nb. step_openmp (Life mt_draws 3 3) = Some s' \<and>
      launch_cudaRun 1 256 9 3 3 0 1 [[1, 0, 1, 1, 0, 1, 1, 0, 1], replicate 9 7]
        = Some ([[1, 0, 1, 1, 0, 1, 1, 0, 1], replicate 9 7][1 := nb]) \<and>
      map unat (nextcells s') = map unat nb) \<and>
   (\<exists>s1 s2. run_openmp (Life mt_draws 3 3) 2 = Some s1 \<and>
      then_do (Life_cuda all_ok mt_draws 3 3) (\<lambda>s. run_cuda all_ok s 2) = Inr s2 \<and>
      map unat (cells s1) = map unat (cells s2) \<and> output_file s1 = output_file s2)"
proof -
  let ?s = "Life mt_draws 3 3"
  let ?mem = "[[1, 0, 1, 1, 0, 1, 1, 0, 1], replicate 9 7] :: devmem"
  have hw: "height ?s = 3" "width ?s = 3" by (simp_all add: Life_def)
  have c: "cells ?s = [1, 0, 1, 1, 0, 1, 1, 0, 1]"
    by (simp add: Life_def init_random_def mt_draws_def upt_rec)
  have n: "length (nextcells ?s) = 9" by (simp add: Life_def)
  have b: "all_bits (cells ?s)" using mt_draws_bit by (rule Life_bits)
  from square_grids_agree [of ?s 0 ?mem 1 3 3 mt_draws all_ok 2]
  show ?thesis
    using b mt_draws_bit all_ok_ok by (simp add: hw c n)
qed

text \<open>
  The claim as stated fails, in three ways. At \<open>H = W = 65536\<close> the product
  \<open>height*width\<close> wraps to 0, the vectors hold no cell, and the first read of the OpenMP
  step is out of bounds: the step has no result. On the 3-by-3 grid whose cells are
  \<open>32, 32, 32, 32, 1, 32, 32, 32, 34\<close> the eight neighbours of cell \<open>(1, 1)\<close> sum to 258,
  which is 2 as a \<open>uint8_t\<close>: the OpenMP loop body keeps the cell alive where the kernel
  body, counting in \<open>int\<close>, writes 0. With a device on which no call succeeds the CUDA
  program aborts and has no final grid.
\<close>

theorem square_grids_agree_counterexample:
  "step_openmp (Life mt_draws 65536 65536) = None \<and>
   run_openmp (Life mt_draws 65536 65536) 1 = None \<and>
   map_option nextcells
       (cell_openmp \<lparr>height = 3, width = 3, cells = [32, 32, 32, 32, 1, 32, 32, 32, 34],
                     nextcells = [7, 7, 7, 7, 7, 7, 7, 7, 7]\<rparr> 1 1)
     = Some [7, 7, 7, 7, 1, 7, 7, 7, 7] \<and>
   cell_cuda 3 3 0 1 4 [[32, 32, 32, 32, 1, 32, 32, 32, 34], [7, 7, 7, 7, 7, 7, 7, 7, 7]]
     = Some [[32, 32, 32, 32, 1, 32, 32, 32, 34], [7, 7, 7, 7, 0, 7, 7, 7, 7]] \<and>
   map_sum id cells (then_do (Life_cuda no_device mt_draws 3 3) (\<lambda>s. run_cuda no_device s 1))
     = Inl Abort"
proof -
  have a: "step_openmp (Life mt_draws 65536 65536) = None"
    "run_openmp (Life mt_draws 65536 65536) 1 = None"
    by (simp_all add: openmp_eval)
  have b: "map_option nextcells
       (cell_openmp \<lparr>height = 3, width = 3, cells = [32, 32, 32, 32, 1, 32, 32, 32, 34],
                     nextcells = [7, 7, 7, 7, 7, 7, 7, 7, 7]\<rparr> 1 1)
     = Some [7, 7, 7, 7, 1, 7, 7, 7, 7]"
    by (simp add: cell_openmp_def count_neighbours_def vec_read_def vec_write_def
          index_openmp_def alive_def dead_def Let_def)
  have c: "cell_cuda 3 3 0 1 4 [[32, 32, 32, 32, 1, 32, 32, 32, 34], [7, 7, 7, 7, 7, 7, 7, 7, 7]]
     = Some [[32, 32, 32, 32, 1, 32, 32, 32, 34], [7, 7, 7, 7, 0, 7, 7, 7, 7]]"
    by (simp add: cell_cuda_def neighbours_cuda_def dev_read_def dev_write_def vec_read_def
          vec_write_def int_mod_def int_div_def Let_def)
  have d: "map_sum id cells (then_do (Life_cuda no_device mt_draws 3 3) (\<lambda>s. run_cuda no_device s 1))
     = Inl Abort"
    by (simp add: then_do_def Life_cuda_def cudaMalloc_def checkError_def no_device_def Let_def)
  from a b c d show ?thesis by simp
qed

section \<open>A kernel launch that writes nothing\<close>





section \<open>Cells are 0 or 1: the two programs\<close>




section \<open>The two main functions\<close>

lemma stoi_dec_3: "stoi_dec ''3'' = Some 3" "stoi_dec ''1'' = Some 1" "stoi_dec ''2'' = Some 2"
  by (simp_all add: stoi_dec_def digit_val_def)

lemma stoi_dec_4: "stoi_dec ''4'' = Some 4"
  by (simp add: stoi_dec_def digit_val_def)

lemma stoi_dec_65536: "stoi_dec ''65536'' = Some 65536"
  by (simp add: stoi_dec_def digit_val_def)

lemma main_usage:
  assumes "length args \<noteq> 4"
  shows "main_openmp stoi rnd modelTime totalTime args
           = Inr \<lparr>stdout = usage, files = [], status = 1\<rparr>"
    and "main_cuda env stoi rnd modelTime totalTime args
           = Inr \<lparr>stdout = usage, files = [], status = 1\<rparr>"
  using assms by (simp_all add: main_openmp_def main_cuda_def)

lemma main_openmp_square:
  assumes args: "length args = 4" "stoi (args ! 1) = Some h" "stoi (args ! 2) = Some w"
      "stoi (args ! 3) = Some turns"
    and sq: "h = w" and size: "unat h * unat w < 2 ^ 30" and draws: "\<forall>k. rnd k \<le> 1"
  shows "\<exists>out. main_openmp stoi rnd modelTime totalTime args
           = Inr \<lparr>stdout = timings modelTime totalTime,
                  files = [(''output-openmp.txt'', out)], status = 0\<rparr>"
proof -
  from openmp_program_spec [OF sq size draws, of turns]
  obtain s where s: "run_openmp (Life rnd h w) turns = Some s"
    and hw: "height s = h" "width s = w" and l: "length (cells s) = unat h * unat w"
    by (elim exE conjE)
  have "unat (height s) * unat (width s) < 2 ^ 32" using size by (simp add: hw)
  with l obtain out where "output_file s = Some out"
    using output_file_total [of s] by (auto simp: hw)
  then show ?thesis
    using args s by (simp add: main_openmp_def parse_args_def then_do_def)
qed

lemma main_cuda_ok:
  assumes args: "length args = 4" "stoi (args ! 1) = Some h" "stoi (args ! 2) = Some w"
      "stoi (args ! 3) = Some turns"
    and size: "unat h * unat w < 2 ^ 30" and draws: "\<forall>k. rnd k \<le> 1"
    and ok: "\<forall>k. api_ok env k"
  shows "\<exists>out. main_cuda env stoi rnd modelTime totalTime args
           = Inr \<lparr>stdout = timings modelTime totalTime,
                  files = [(''output-cuda.txt'', out)], status = 0\<rparr>"
proof -
  from cuda_program_spec [OF ok size draws, of turns]
  obtain s where s: "then_do (Life_cuda env rnd h w) (\<lambda>s. run_cuda env s turns) = Inr s"
    and hw: "height s = h" "width s = w" and inv: "cuda_inv s"
    by (elim exE conjE)
  have l: "length (cells s) = unat (height s) * unat (width s)"
    using inv by (simp add: cuda_inv_def)
  have "unat (height s) * unat (width s) < 2 ^ 32" using size by (simp add: hw)
  with l obtain out where out: "output_file s = Some out"
    using output_file_total [of s] by auto
  from s obtain s0 where s0: "Life_cuda env rnd h w = Inr s0" and r: "run_cuda env s0 turns = Inr s"
    by (auto simp: then_do_def split: sum.splits)
  show ?thesis
    using args s0 r out by (simp add: main_cuda_def parse_args_def then_do_def)
qed

text \<open>
  C8 (corrected). With an argument count other than four (the program name and three
  arguments) both programs print the usage line and return 1 without running. When the
  three arguments parse to \<open>h\<close>, \<open>w\<close> and \<open>turns\<close>, the grid has fewer than \<open>2 ^ 30\<close>
  cells and the draws are 0 or 1: the OpenMP program on a square grid, and the CUDA
  program when every CUDA call succeeds, write their file and return 0.
\<close>

theorem main_exit_status:
  "(length args \<noteq> 4 \<longrightarrow>
      main_openmp stoi rnd modelTime totalTime args
        = Inr \<lparr>stdout = usage, files = [], status = 1\<rparr> \<and>
      main_cuda env stoi rnd modelTime totalTime args
        = Inr \<lparr>stdout = usage, files = [], status = 1\<rparr>) \<and>
   (length args = 4 \<and> stoi (args ! 1) = Some h \<and> stoi (args ! 2) = Some w \<and>
    stoi (args ! 3) = Some turns \<and> unat h * unat w < 2 ^ 30 \<and>
    (\<forall>k. rnd k = 0 \<or> rnd k = 1) \<longrightarrow>
      (h = w \<longrightarrow>
         (\<exists>out. main_openmp stoi rnd modelTime totalTime args
            = Inr \<lparr>stdout = timings modelTime totalTime,
                   files = [(''output-openmp.txt'', out)], status = 0\<rparr>)) \<and>
      ((\<forall>k. api_ok env k) \<longrightarrow>
         (\<exists>out. main_cuda env stoi rnd modelTime totalTime args
            = Inr \<lparr>stdout = timings modelTime totalTime,
                   files = [(''output-cuda.txt'', out)], status = 0\<rparr>)))"
proof (intro conjI impI)
  assume "length args \<noteq> 4"
  then show "main_openmp stoi rnd modelTime totalTime args
        = Inr \<lparr>stdout = usage, files = [], status = 1\<rparr>"
    and "main_cuda env stoi rnd modelTime totalTime args
        = Inr \<lparr>stdout = usage, files = [], status = 1\<rparr>"
    by (rule main_usage)+
next
  assume a: "length args = 4 \<and> stoi (args ! 1) = Some h \<and> stoi (args ! 2) = Some w \<and>
    stoi (args ! 3) = Some turns \<and> unat h * unat w < 2 ^ 30 \<and>
    (\<forall>k. rnd k = 0 \<or> rnd k = 1)"
  then have args: "length args = 4" "stoi (args ! 1) = Some h" "stoi (args ! 2) = Some w"
      "stoi (args ! 3) = Some turns"
    and size: "unat h * unat w < 2 ^ 30" and d: "\<forall>k. rnd k \<le> 1"
    using draws_le [of rnd] by blast+
  {
    assume "h = w"
    with args show "\<exists>out. main_openmp stoi rnd modelTime totalTime args
            = Inr \<lparr>stdout = timings modelTime totalTime,
                   files = [(''output-openmp.txt'', out)], status = 0\<rparr>"
      using size d by (rule main_openmp_square)
  }
  {
    assume "\<forall>k. api_ok env k"
    with args size d show "\<exists>out. main_cuda env stoi rnd modelTime totalTime args
            = Inr \<lparr>stdout = timings modelTime totalTime,
                   files = [(''output-cuda.txt'', out)], status = 0\<rparr>"
      by (rule main_cuda_ok)
  }
qed

theorem main_exit_status_witness:
  "main_openmp stoi_dec mt_draws 0 0 [''./gol-openmp'', ''3'']
     = Inr \<lparr>stdout = usage, files = [], status = 1\<rparr> \<and>
   main_cuda all_ok stoi_dec mt_draws 0 0 [''./gol-cuda'', ''3'']
     = Inr \<lparr>stdout = usage, files = [], status = 1\<rparr> \<and>
   (\<exists>out. main_openmp stoi_dec mt_draws 0 0 [''./gol-openmp'', ''3'', ''3'', ''2'']
      = Inr \<lparr>stdout = timings 0 0, files = [(''output-openmp.txt'', out)], status = 0\<rparr>) \<and>
   (\<exists>out. main_cuda all_ok stoi_dec mt_draws 0 0 [''./gol-cuda'', ''3'', ''3'', ''2'']
      = Inr \<lparr>stdout = timings 0 0, files = [(''output-cuda.txt'', out)], status = 0\<rparr>)"
  using main_exit_status [where args = "[''./gol-openmp'', ''3'']" and stoi = stoi_dec
      and rnd = mt_draws and modelTime = 0 and totalTime = 0 and env = all_ok]
    main_exit_status [where args = "[''./gol-cuda'', ''3'']" and stoi = stoi_dec
      and rnd = mt_draws and modelTime = 0 and totalTime = 0 and env = all_ok]
    main_exit_status [where args = "[''./gol-openmp'', ''3'', ''3'', ''2'']" and stoi = stoi_dec
      and rnd = mt_draws and modelTime = 0 and totalTime = 0 and env = all_ok
      and h = 3 and w = 3 and turns = 2]
    main_exit_status [where args = "[''./gol-cuda'', ''3'', ''3'', ''2'']" and stoi = stoi_dec
      and rnd = mt_draws and modelTime = 0 and totalTime = 0 and env = all_ok
      and h = 3 and w = 3 and turns = 2]
    mt_draws_bit all_ok_ok
  by (simp add: stoi_dec_3)

text \<open>
  The claim as stated fails. Started with \<open>3 3 1\<close> on a machine where the first
  \<open>cudaMalloc\<close> does not return \<open>cudaSuccess\<close>, the CUDA program is aborted by
  \<open>checkError\<close>. Started with \<open>65536 65536 1\<close>, both programs hold vectors of no cells,
  since \<open>height*width\<close> wraps to 0, and read them out of bounds: the OpenMP program in its
  first neighbour count, the CUDA program in \<open>output_file\<close>.
\<close>

theorem main_exit_status_counterexample:
  "main_cuda no_device stoi_dec mt_draws 0 0 [''./gol-cuda'', ''3'', ''3'', ''1''] = Inl Abort \<and>
   main_openmp stoi_dec mt_draws 0 0 [''./gol-openmp'', ''65536'', ''65536'', ''1'']
     = Inl UndefinedBehaviour \<and>
   main_cuda all_ok stoi_dec mt_draws 0 0 [''./gol-cuda'', ''65536'', ''65536'', ''1'']
     = Inl UndefinedBehaviour"
proof -
  have a: "main_cuda no_device stoi_dec mt_draws 0 0 [''./gol-cuda'', ''3'', ''3'', ''1'']
             = Inl Abort"
    by (simp add: main_cuda_def parse_args_def then_do_def stoi_dec_3 Life_cuda_def
          cudaMalloc_def checkError_def no_device_def Let_def)
  have "run_openmp (Life mt_draws 65536 65536) 1 = None"
    by (simp add: openmp_eval)
  then have b: "main_openmp stoi_dec mt_draws 0 0 [''./gol-openmp'', ''65536'', ''65536'', ''1'']
     = Inl UndefinedBehaviour"
    by (simp add: main_openmp_def parse_args_def then_do_def stoi_dec_3 stoi_dec_65536)
  have c: "main_cuda all_ok stoi_dec mt_draws 0 0 [''./gol-cuda'', ''65536'', ''65536'', ''1'']
     = Inl UndefinedBehaviour"
    by (simp add: main_cuda_def parse_args_def stoi_dec_3 stoi_dec_65536
          Life_cuda_def cudaMalloc_def checkError_def then_do_def
          copy_to_device_def copy_to_host_def run_cuda_def turn_cuda_def for_u32_err_unfold
          launch_cudaRun_def thread_ids_def all_ok_def Let_def init_random_def
          output_file_def for_u32_unfold vec_read_def)
  from a b c show ?thesis by simp
qed

section \<open>The two programs on grids that are not square\<close>

text \<open>
  C1 (the code departs from the claim). With \<open>mt_draws\<close> as the initialisation: started
  with \<open>4 3 1\<close> the OpenMP program writes out of bounds and has no defined result; started
  with \<open>3 4 2\<close> the OpenMP program writes a file that ends in \<open>0001\<close> where the file of the
  CUDA program ends in \<open>0000\<close>.
\<close>

theorem nonsquare_outputs_differ:
  "main_openmp stoi_dec mt_draws 0 0 [''./gol-openmp'', ''4'', ''3'', ''1'']
     = Inl UndefinedBehaviour \<and>
   main_openmp stoi_dec mt_draws 0 0 [''./gol-openmp'', ''3'', ''4'', ''2'']
     = Inr \<lparr>stdout = timings 0 0,
            files = [(''output-openmp.txt'', ''0000'' @ endl @ ''0000'' @ endl @ ''0001'' @ endl)],
            status = 0\<rparr> \<and>
   main_cuda all_ok stoi_dec mt_draws 0 0 [''./gol-cuda'', ''3'', ''4'', ''2'']
     = Inr \<lparr>stdout = timings 0 0,
            files = [(''output-cuda.txt'', ''0000'' @ endl @ ''0000'' @ endl @ ''0000'' @ endl)],
            status = 0\<rparr>"
proof -
  have "step_openmp (Life mt_draws 4 3) = None"
    by (rule step_openmp_oob [where x = 0 and y = 3]) (simp_all add: Life_def index_openmp_def)
  then have "run_openmp (Life mt_draws 4 3) 1 = None"
    by (simp add: run_openmp_def for_u32_unfold turn_openmp_def)
  then have a: "main_openmp stoi_dec mt_draws 0 0 [''./gol-openmp'', ''4'', ''3'', ''1'']
     = Inl UndefinedBehaviour"
    by (simp add: main_openmp_def parse_args_def then_do_def stoi_dec_3 stoi_dec_4)
  have "map_option (\<lambda>s. (height s, width s, cells s)) (run_openmp (Life mt_draws 3 4) 2)
          = Some (3, 4, [0, 0, 0, 0, 0, 0, 0, 0, 0, 0, 0, 1])"
    by (simp add: openmp_eval)
  then obtain s1 where s1: "run_openmp (Life mt_draws 3 4) 2 = Some s1"
    and hw1: "height s1 = 3" "width s1 = 4"
    and c1: "cells s1 = [0, 0, 0, 0, 0, 0, 0, 0, 0, 0, 0, 1]"
    by auto
  have "output_file s1 = Some (''0000'' @ endl @ ''0000'' @ endl @ ''0001'' @ endl)"
    by (simp add: output_file_grid hw1 c1 output_eval)
  with s1 have b: "main_openmp stoi_dec mt_draws 0 0 [''./gol-openmp'', ''3'', ''4'', ''2'']
     = Inr \<lparr>stdout = timings 0 0,
            files = [(''output-openmp.txt'', ''0000'' @ endl @ ''0000'' @ endl @ ''0001'' @ endl)],
            status = 0\<rparr>"
    by (simp add: main_openmp_def parse_args_def then_do_def stoi_dec_3 stoi_dec_4)
  have size: "unat (3 :: u32) * unat (4 :: u32) < 2 ^ 30" by simp
  from cuda_program_spec [OF all_ok_ok size draws_le [OF mt_draws_bit], of 2]
  obtain s
    where s: "then_do (Life_cuda all_ok mt_draws 3 4) (\<lambda>s. run_cuda all_ok s 2) = Inr s"
      and hw: "height s = 3" "width s = 4"
      and g: "map unat (cells s)
               = (step_spec (unat (3 :: u32)) (unat (4 :: u32)) ^^ unat (2 :: u32))
                   (map unat (init_random mt_draws
                      (replicate (unat (3 :: u32) * unat (4 :: u32)) 0) :: i32 list))"
    by (elim exE conjE)
  have i: "map unat (init_random mt_draws (replicate (unat (3 :: u32) * unat (4 :: u32)) 0)
                       :: i32 list)
             = [1, 0, 1, 1, 0, 1, 1, 0, 1, 0, 0, 1]"
    by (simp add: init_random_def mt_draws_def upt_rec)
  have e: "step_spec 3 4 (step_spec 3 4 [1, 0, 1, 1, 0, 1, 1, 0, 1, 0, 0, 1])
             = [0, 0, 0, 0, 0, 0, 0, 0, 0, 0, 0, 0]"
    by (simp add: spec_eval)
  have "map unat (cells s) = [0, 0, 0, 0, 0, 0, 0, 0, 0, 0, 0, 0]"
    unfolding g i using e by (simp add: funpow_two)
  then have out: "output_file s = Some (''0000'' @ endl @ ''0000'' @ endl @ ''0000'' @ endl)"
    by (simp add: output_file_grid hw output_eval)
  from s obtain s0 where s0: "Life_cuda all_ok mt_draws 3 4 = Inr s0"
    and r: "run_cuda all_ok s0 2 = Inr s"
    by (auto simp: then_do_def split: sum.splits)
  have c: "main_cuda all_ok stoi_dec mt_draws 0 0 [''./gol-cuda'', ''3'', ''4'', ''2'']
     = Inr \<lparr>stdout = timings 0 0,
            files = [(''output-cuda.txt'', ''0000'' @ endl @ ''0000'' @ endl @ ''0000'' @ endl)],
            status = 0\<rparr>"
    using s0 r out by (simp add: main_cuda_def parse_args_def then_do_def stoi_dec_3 stoi_dec_4)
  from a b c show ?thesis by simp
qed

end
